theory Spec2Isabelle
  imports Main "HOL-Library.Char_ord" "HOL-Library.While_Combinator"
begin

section \<open>Configuration constants (sdk_config)\<close>

text \<open>
  Modelled from the spec: \<^verbatim>\<open>sdk_board.py\<close> imports ROOT, NROWS, NCOLS, CHOICES and
  UNKNOWN from the module \<^verbatim>\<open>sdk_config\<close>, which is not among the sources. The spec
  fixes the default: a 9 x 9 grid of 3 x 3 blocks over the symbols "1" .. "9", with
  UNKNOWN a placeholder character outside CHOICES. The placeholder is the dot of the
  Sadman Sudoku format that \<^verbatim>\<open>Board.__str__\<close> names. Symbols are single characters, as
  \<^verbatim>\<open>as_list\<close> joins them into one string per row and \<^verbatim>\<open>set_tiles\<close> reads them back
  by index.
\<close>

definition ROOT :: nat where
  "ROOT = 3"

definition NROWS :: nat where
  "NROWS = ROOT * ROOT"

definition NCOLS :: nat where
  "NCOLS = ROOT * ROOT"

definition CHOICES :: "char list" where
  "CHOICES = ''123456789''"

definition UNKNOWN :: char where
  "UNKNOWN = CHR ''.''"

section \<open>Tiles\<close>

text \<open>
  A \<^verbatim>\<open>Tile\<close> object: its position, its value (UNKNOWN or a symbol) and its candidate
  set. The listener list of \<^verbatim>\<open>Listenable\<close> is left out: \<^verbatim>\<open>notify_all\<close> only calls
  the attached listeners, and none of the methods below reads it.
\<close>

record tile =
  row :: nat
  col :: nat
  "value" :: char
  candidates :: "char set"

text \<open>The exceptions the methods below can raise.\<close>

datatype error = AssertionError | IndexError | AttributeError

text \<open>\<^verbatim>\<open>Tile.set_value\<close>: a symbol of CHOICES becomes the value with itself as only
  candidate; anything else makes the tile UNKNOWN with every symbol a candidate.\<close>

definition set_value :: "char \<Rightarrow> tile \<Rightarrow> tile" where
  "set_value v t =
     (if v \<in> set CHOICES then t\<lparr>value := v, candidates := {v}\<rparr>
      else t\<lparr>value := UNKNOWN, candidates := set CHOICES\<rparr>)"

text \<open>\<^verbatim>\<open>Tile.__init__(row, col, value=UNKNOWN)\<close> asserts that the value is UNKNOWN
  or a symbol of CHOICES and then fills the fields by \<^verbatim>\<open>set_value\<close>; \<open>new_tile\<close>
  is the tile it builds.\<close>

definition new_tile :: "nat \<Rightarrow> nat \<Rightarrow> char \<Rightarrow> tile" where
  "new_tile r c v = set_value v \<lparr>row = r, col = c, value = UNKNOWN, candidates = {}\<rparr>"

definition Tile :: "nat \<Rightarrow> nat \<Rightarrow> char \<Rightarrow> error + tile" where
  "Tile r c v =
     (if v = UNKNOWN \<or> v \<in> set CHOICES then Inr (new_tile r c v) else Inl AssertionError)"

text \<open>\<^verbatim>\<open>Tile.could_be\<close>.\<close>

definition could_be :: "tile \<Rightarrow> char \<Rightarrow> bool" where
  "could_be t v = (v \<in> candidates t)"

text \<open>\<^verbatim>\<open>Tile.remove_candidates\<close>: returns the flag and the tile after the call.
  \<^verbatim>\<open>new_candidates.pop()\<close> is only reached on a one-element set, whose element it
  returns.\<close>

definition remove_candidates :: "char set \<Rightarrow> tile \<Rightarrow> bool \<times> tile" where
  "remove_candidates used_values t =
     (let new_candidates = candidates t - used_values in
      if new_candidates = candidates t then (False, t)
      else
        (let t1 = t\<lparr>candidates := new_candidates\<rparr> in
         if card (candidates t1) = 1
         then (True, set_value (the_elem new_candidates) t1)
         else (True, t1)))"

section \<open>The board\<close>

text \<open>
  \<^verbatim>\<open>Board.tiles\<close> is a list of rows of tiles. The groups hold references to the same
  tile objects; here a group is the list of the (row, column) addresses of its tiles,
  and every read and write of a tile goes through its address.
\<close>

type_synonym pos = "nat \<times> nat"

type_synonym board = "tile list list"

definition tile_at :: "board \<Rightarrow> pos \<Rightarrow> tile" where
  "tile_at b p = b ! fst p ! snd p"

definition update_tile :: "board \<Rightarrow> pos \<Rightarrow> tile \<Rightarrow> board" where
  "update_tile b p t = b[fst p := (b ! fst p)[snd p := t]]"

text \<open>\<^verbatim>\<open>Board.__init__\<close>: the empty board. Every tile is built by
  \<^verbatim>\<open>Tile(row, col)\<close> with the default value UNKNOWN, for which the assertion of the
  constructor holds.\<close>

definition Board :: board where
  "Board = map (\<lambda>r. map (\<lambda>c. new_tile r c UNKNOWN) [0..<NCOLS]) [0..<NROWS]"

text \<open>\<^verbatim>\<open>Board.create_groups\<close>: the blocks, then the rows, then the columns.\<close>

definition block_group :: "nat \<Rightarrow> nat \<Rightarrow> pos list" where
  "block_group block_row block_col =
     concat (map (\<lambda>r. map (\<lambda>c. (ROOT * block_row + r, ROOT * block_col + c)) [0..<ROOT])
       [0..<ROOT])"

definition create_groups :: "pos list list" where
  "create_groups =
     concat (map (\<lambda>block_row. map (\<lambda>block_col. block_group block_row block_col) [0..<ROOT])
       [0..<ROOT])
     @ map (\<lambda>r. map (\<lambda>c. (r, c)) [0..<NCOLS]) [0..<NROWS]
     @ map (\<lambda>c. map (\<lambda>r. (r, c)) [0..<NROWS]) [0..<NCOLS]"

definition groups :: "pos list list" where
  "groups = create_groups"

text \<open>\<^verbatim>\<open>Board.set_tiles\<close>: \<^verbatim>\<open>tile_values[row_num][col_num]\<close> raises IndexError when
  the input is too short; longer input is read only up to the grid's size.\<close>

fun for_each :: "('a \<Rightarrow> 's \<Rightarrow> error + 's) \<Rightarrow> 'a list \<Rightarrow> 's \<Rightarrow> error + 's" where
  "for_each f [] s = Inr s"
| "for_each f (x # xs) s = (case f x s of Inl e \<Rightarrow> Inl e | Inr s' \<Rightarrow> for_each f xs s')"

definition set_tile :: "string list \<Rightarrow> nat \<Rightarrow> nat \<Rightarrow> board \<Rightarrow> error + board" where
  "set_tile tile_values row_num col_num b =
     (if row_num < length tile_values \<and> col_num < length (tile_values ! row_num)
      then Inr (update_tile b (row_num, col_num)
             (set_value (tile_values ! row_num ! col_num) (tile_at b (row_num, col_num))))
      else Inl IndexError)"

definition set_tiles :: "string list \<Rightarrow> board \<Rightarrow> error + board" where
  "set_tiles tile_values b =
     for_each (\<lambda>row_num. for_each (\<lambda>col_num. set_tile tile_values row_num col_num) [0..<NCOLS])
       [0..<NROWS] b"

text \<open>\<^verbatim>\<open>Board.as_list\<close>: one string per row, the values of its tiles.\<close>

definition as_list :: "board \<Rightarrow> string list" where
  "as_list b = map (\<lambda>r. map (\<lambda>t. value t) r) b"

text \<open>\<^verbatim>\<open>Board.is_consistent\<close> and \<^verbatim>\<open>Board.is_complete\<close>.\<close>

definition group_values :: "board \<Rightarrow> pos list \<Rightarrow> char list" where
  "group_values b g = filter (\<lambda>v. v \<noteq> UNKNOWN) (map (\<lambda>p. value (tile_at b p)) g)"

definition is_consistent :: "board \<Rightarrow> bool" where
  "is_consistent b =
     list_all (\<lambda>g. length (group_values b g) = card (set (group_values b g))) groups"

definition is_complete :: "board \<Rightarrow> bool" where
  "is_complete b = list_all (\<lambda>g. list_all (\<lambda>p. value (tile_at b p) \<noteq> UNKNOWN) g) groups"

section \<open>Propagation\<close>

text \<open>\<^verbatim>\<open>Board.naked_single\<close>. The used values of a group are collected once, before
  its tiles are visited. The state of the two loops is the progress flag and the
  board.\<close>

definition naked_tile :: "char set \<Rightarrow> pos \<Rightarrow> bool \<times> board \<Rightarrow> bool \<times> board" where
  "naked_tile used_values p s =
     (let t = tile_at (snd s) p in
      if value t = UNKNOWN
      then (let r = remove_candidates used_values t in
            (if fst r then True else fst s, update_tile (snd s) p (snd r)))
      else s)"

definition naked_group :: "pos list \<Rightarrow> bool \<times> board \<Rightarrow> bool \<times> board" where
  "naked_group g s = fold (naked_tile (set (group_values (snd s) g))) g s"

definition naked_single :: "board \<Rightarrow> bool \<times> board" where
  "naked_single b = fold naked_group groups (False, b)"

text \<open>\<^verbatim>\<open>Board.hidden_single\<close>. Python leaves the order in which
  \<^verbatim>\<open>for value in leftovers\<close> visits a set open; the order is the parameter
  \<open>iter\<close>, which lists the elements of a set.\<close>

definition leftovers_of :: "board \<Rightarrow> pos list \<Rightarrow> char set" where
  "leftovers_of b g =
     fold (\<lambda>p leftovers.
             if value (tile_at b p) \<in> leftovers then leftovers - {value (tile_at b p)}
             else leftovers)
       g (set CHOICES)"

definition hidden_value :: "pos list \<Rightarrow> char \<Rightarrow> bool \<times> board \<Rightarrow> bool \<times> board" where
  "hidden_value g v s =
     (let possible_tiles = filter (\<lambda>p. v \<in> candidates (tile_at (snd s) p)) g in
      if length possible_tiles = 1
      then (True, update_tile (snd s) (possible_tiles ! 0)
                    (set_value v (tile_at (snd s) (possible_tiles ! 0))))
      else s)"

definition hidden_group :: "(char set \<Rightarrow> char list) \<Rightarrow> pos list \<Rightarrow> bool \<times> board \<Rightarrow> bool \<times> board"
  where
  "hidden_group iter g s = fold (hidden_value g) (iter (leftovers_of (snd s) g)) s"

definition hidden_single :: "(char set \<Rightarrow> char list) \<Rightarrow> board \<Rightarrow> bool \<times> board" where
  "hidden_single iter b = fold (hidden_group iter) groups (False, b)"

text \<open>\<^verbatim>\<open>Board.propagate\<close>: the while loop over the progress flag. The result of
  \<^verbatim>\<open>hidden_single\<close> is dropped, as in the source. A loop that never stops is the
  value \<open>None\<close>.\<close>

definition propagate_step :: "(char set \<Rightarrow> char list) \<Rightarrow> bool \<times> board \<Rightarrow> bool \<times> board" where
  "propagate_step iter s =
     (let n = naked_single (snd s) in (fst n, snd (hidden_single iter (snd n))))"

definition propagate :: "(char set \<Rightarrow> char list) \<Rightarrow> board \<Rightarrow> board option" where
  "propagate iter b = map_option snd (while_option fst (propagate_step iter) (True, b))"

section \<open>Search\<close>

text \<open>\<^verbatim>\<open>Board.min_choice_tile\<close>: the running minimum starts at infinity (\<open>None\<close>
  here), and \<open>None\<close> is returned when no tile is UNKNOWN.\<close>

definition min_choice_step :: "board \<Rightarrow> pos \<Rightarrow> nat option \<times> pos option \<Rightarrow> nat option \<times> pos option"
  where
  "min_choice_step b p s =
     (if value (tile_at b p) = UNKNOWN
      then (let num_candidates = card (candidates (tile_at b p)) in
            if (case fst s of None \<Rightarrow> True | Some m \<Rightarrow> num_candidates < m)
            then (Some num_candidates, Some p)
            else s)
      else s)"

definition min_choice_tile :: "board \<Rightarrow> pos option" where
  "min_choice_tile b = snd (fold (\<lambda>g s. fold (min_choice_step b) g s) groups (None, None))"

text \<open>\<^verbatim>\<open>Board.solve\<close>, with the recursion depth bounded by fuel: \<open>None\<close> is "out of
  fuel", \<open>Inl\<close> an exception, \<open>Inr (r, b)\<close> the returned flag and the board left
  behind. \<open>guess_loop\<close> is the \<^verbatim>\<open>for value in tile_to_guess.candidates\<close> loop.\<close>

fun solve :: "(char set \<Rightarrow> char list) \<Rightarrow> nat \<Rightarrow> board \<Rightarrow> (error + bool \<times> board) option"
  and guess_loop :: "(char set \<Rightarrow> char list) \<Rightarrow> nat \<Rightarrow> string list \<Rightarrow> pos \<Rightarrow> char list \<Rightarrow> board
                      \<Rightarrow> (error + bool \<times> board) option"
  where
  "solve iter 0 b = None"
| "solve iter (Suc n) b =
     (case propagate iter b of
        None \<Rightarrow> None
      | Some b1 \<Rightarrow>
          if is_complete b1 then Some (Inr (True, b1))
          else if \<not> is_consistent b1 then Some (Inr (False, b1))
          else
            (let saved_state = as_list b1 in
             case min_choice_tile b1 of
               None \<Rightarrow> Some (Inl AttributeError)
             | Some tile_to_guess \<Rightarrow>
                 guess_loop iter n saved_state tile_to_guess
                   (iter (candidates (tile_at b1 tile_to_guess))) b1))"
| "guess_loop iter n saved_state tile_to_guess [] b = Some (Inr (False, b))"
| "guess_loop iter n saved_state tile_to_guess (v # vs) b =
     (case solve iter n (update_tile b tile_to_guess (set_value v (tile_at b tile_to_guess))) of
        None \<Rightarrow> None
      | Some (Inl e) \<Rightarrow> Some (Inl e)
      | Some (Inr (True, b')) \<Rightarrow> Some (Inr (True, b'))
      | Some (Inr (False, b')) \<Rightarrow>
          (case set_tiles saved_state b' of
             Inl e \<Rightarrow> Some (Inl e)
           | Inr b'' \<Rightarrow> guess_loop iter n saved_state tile_to_guess vs b''))"

text \<open>The ascending order of the symbols, one order a set can be visited in.\<close>

definition ascending :: "char set \<Rightarrow> char list" where
  "ascending S = sorted_list_of_set S"

section \<open>Properties of tiles and boards\<close>

text \<open>The invariant of a tile, as the class comment of \<^verbatim>\<open>Tile\<close> states it: a known
  tile has its value as only candidate, an UNKNOWN tile draws its candidates from
  CHOICES.\<close>

definition tile_inv :: "tile \<Rightarrow> bool" where
  "tile_inv t =
     ((value t \<in> set CHOICES \<longrightarrow> candidates t = {value t}) \<and>
      (value t = UNKNOWN \<longrightarrow> candidates t \<subseteq> set CHOICES))"

definition board_inv :: "board \<Rightarrow> bool" where
  "board_inv b = list_all (list_all tile_inv) b"

text \<open>The values a tile can hold, by the class comment of \<^verbatim>\<open>Tile\<close>: UNKNOWN or a
  symbol of CHOICES.\<close>

definition tile_wf :: "tile \<Rightarrow> bool" where
  "tile_wf t = (value t = UNKNOWN \<or> value t \<in> set CHOICES)"

text \<open>A tile as \<^verbatim>\<open>set_value\<close> leaves it: a known tile with its value as only
  candidate, or an UNKNOWN tile with every symbol still a candidate.\<close>

definition fresh :: "tile \<Rightarrow> bool" where
  "fresh t = (tile_wf t \<and> candidates t = (if value t \<in> set CHOICES then {value t} else set CHOICES))"

text \<open>The matrix built by \<^verbatim>\<open>Board.__init__\<close> has NROWS rows of NCOLS tiles, and no
  method changes its shape.\<close>

definition well_shaped :: "board \<Rightarrow> bool" where
  "well_shaped b = (length b = NROWS \<and> list_all (\<lambda>r. length r = NCOLS) b)"

definition in_range :: "board \<Rightarrow> pos \<Rightarrow> bool" where
  "in_range b p = (fst p < length b \<and> snd p < length (b ! fst p))"

text \<open>An input of \<^verbatim>\<open>set_tiles\<close> that is long enough in both directions.\<close>

definition fits :: "string list \<Rightarrow> bool" where
  "fits tile_values =
     (NROWS \<le> length tile_values \<and> list_all (\<lambda>r. NCOLS \<le> length r) (take NROWS tile_values))"

text \<open>A property of boards that every write of the solver keeps: a write of
  \<^verbatim>\<open>set_value\<close> to any tile, and a write of \<^verbatim>\<open>remove_candidates\<close> to an UNKNOWN
  tile.\<close>

definition stable :: "(board \<Rightarrow> bool) \<Rightarrow> bool" where
  "stable Q =
     ((\<forall>b p v. Q b \<longrightarrow> Q (update_tile b p (set_value v (tile_at b p)))) \<and>
      (\<forall>b p used. Q b \<and> value (tile_at b p) = UNKNOWN \<longrightarrow>
         Q (update_tile b p (snd (remove_candidates used (tile_at b p))))))"

section \<open>Measures of progress\<close>

text \<open>The sum of a weight over all tiles of the board; the number of candidates and
  the number of UNKNOWN tiles are such sums.\<close>

definition total :: "(tile \<Rightarrow> nat) \<Rightarrow> board \<Rightarrow> nat" where
  "total w b = sum_list (map (\<lambda>r. sum_list (map w r)) b)"

definition cand_sum :: "board \<Rightarrow> nat" where
  "cand_sum b = total (\<lambda>t. card (candidates t)) b"

definition unknown_count :: "board \<Rightarrow> nat" where
  "unknown_count b = total (\<lambda>t. if value t = UNKNOWN then 1 else 0) b"

text \<open>The boards the solver works on: the shape of \<^verbatim>\<open>Board.__init__\<close>, with every
  tile holding UNKNOWN or a symbol and satisfying the tile invariant.\<close>

definition board_ok :: "board \<Rightarrow> bool" where
  "board_ok b = (well_shaped b \<and> board_inv b \<and> list_all (list_all tile_wf) b)"

text \<open>An iteration order lists only elements of the set it visits.\<close>

definition iter_sound :: "(char set \<Rightarrow> char list) \<Rightarrow> bool" where
  "iter_sound iter = (\<forall>S. set (iter S) \<subseteq> S)"

text \<open>Measures for the loops of \<^verbatim>\<open>naked_single\<close> and \<^verbatim>\<open>propagate\<close>.\<close>

definition nu :: "bool \<times> board \<Rightarrow> nat" where
  "nu s = cand_sum (snd s) + (if fst s then 1 else 0)"

definition mu :: "bool \<times> board \<Rightarrow> nat" where
  "mu s = 2 * cand_sum (snd s) + (if fst s then 1 else 0)"

section \<open>Completions of a grid\<close>

text \<open>A valid completion assigns a symbol of CHOICES to every cell so that every group
  holds each symbol exactly once; it agrees with a board when every known tile has the
  assigned value. Every cell lies in a group, so the cells are the positions of the
  groups.\<close>

definition valid_completion :: "(pos \<Rightarrow> char) \<Rightarrow> bool" where
  "valid_completion f =
     list_all (\<lambda>g. list_all (\<lambda>p. f p \<in> set CHOICES) g \<and>
                   list_all (\<lambda>v. length (filter (\<lambda>p. f p = v) g) = 1) CHOICES) groups"

definition agrees :: "(pos \<Rightarrow> char) \<Rightarrow> board \<Rightarrow> bool" where
  "agrees f b =
     list_all (\<lambda>g. list_all (\<lambda>p. value (tile_at b p) = UNKNOWN \<or> value (tile_at b p) = f p) g)
       groups"

text \<open>A board admits a completion when every tile still has the assigned symbol among
  its candidates.\<close>

definition admits :: "board \<Rightarrow> (pos \<Rightarrow> char) \<Rightarrow> bool" where
  "admits b f = list_all (\<lambda>g. list_all (\<lambda>p. f p \<in> candidates (tile_at b p)) g) groups"

text \<open>An iteration order that lists exactly the elements of the set it visits.\<close>

definition iter_exact :: "(char set \<Rightarrow> char list) \<Rightarrow> bool" where
  "iter_exact iter = (\<forall>S. set (iter S) = S)"

section \<open>Concrete boards\<close>

text \<open>The board a fresh \<^verbatim>\<open>Board()\<close> holds after \<^verbatim>\<open>set_tiles(vs)\<close>.\<close>

definition tiles_of :: "string list \<Rightarrow> board" where
  "tiles_of vs = map (\<lambda>r. map (\<lambda>c. new_tile r c (vs ! r ! c)) [0..<NCOLS]) [0..<NROWS]"

text \<open>A solved grid.\<close>

definition solved :: "string list" where
  "solved = [''123456789'', ''456789123'', ''789123456'', ''234567891'', ''567891234'',
             ''891234567'', ''345678912'', ''678912345'', ''912345678'']"

text \<open>An input with symbols outside CHOICES.\<close>

definition malformed :: "string list" where
  "malformed = replicate 9 ''12x45 789''"

text \<open>The empty board after \<^verbatim>\<open>remove_candidates({"1"})\<close> on its first tile.\<close>

definition pruned_board :: board where
  "pruned_board = update_tile Board (0, 0) (snd (remove_candidates {CHR ''1''} (tile_at Board (0, 0))))"

text \<open>A grid of 78 givens without duplicates in any group: the solved grid with the
  tiles (0,3), (0,6) and (1,0) blanked and the 7 at (1,3) replaced by a 4. The board
  \<open>X1_out\<close> is what propagation makes of it.\<close>

definition X1 :: "string list" where
  "X1 = [''123.56.89'', ''.56489123'', ''789123456'', ''234567891'', ''567891234'',
         ''891234567'', ''345678912'', ''678912345'', ''912345678'']"

definition X1_out :: "string list" where
  "X1_out = [''123756789'', ''456489123'', ''789123456'', ''234567891'', ''567891234'',
         ''891234567'', ''345678912'', ''678912345'', ''912345678'']"

text \<open>A grid of 78 givens without duplicates in any group: the solved grid with the
  tiles (0,0), (1,1) and (1,6) blanked and the 7 at (0,6) replaced by a 1. The board
  \<open>X6_final\<close> is the state \<^verbatim>\<open>solve\<close> leaves behind: the values of \<open>X6_out\<close>, and
  a first tile that is UNKNOWN with no candidate left.\<close>

definition X6 :: "string list" where
  "X6 = [''.23456189'', ''4.6789.23'', ''789123456'', ''234567891'', ''567891234'',
         ''891234567'', ''345678912'', ''678912345'', ''912345678'']"

definition X6_out :: "string list" where
  "X6_out = [''.23456189'', ''456789723'', ''789123456'', ''234567891'', ''567891234'',
         ''891234567'', ''345678912'', ''678912345'', ''912345678'']"

definition X6_final :: board where
  "X6_final = update_tile (tiles_of X6_out) (0, 0) ((new_tile 0 0 UNKNOWN)\<lparr>candidates := {}\<rparr>)"

text \<open>A puzzle and its solution: the solved grid with three tiles blanked.\<close>

definition puzzle :: "string list" where
  "puzzle = [''123.56.89'', ''.56789123'', ''789123456'', ''234567891'', ''567891234'',
             ''891234567'', ''345678912'', ''678912345'', ''912345678'']"

definition solution :: "pos \<Rightarrow> char" where
  "solution p = solved ! fst p ! snd p"

text \<open>The solved grid without its 1s, 2s and 3s. The state \<open>Z\<close> is reached from it
  by the public calls \<^verbatim>\<open>tiles[0][1].remove_candidates({"1"})\<close>,
  \<^verbatim>\<open>tiles[0][2].remove_candidates({"1"})\<close> and \<^verbatim>\<open>naked_single()\<close>.\<close>

definition G3 :: "string list" where
  "G3 = [''...456789'', ''456789...'', ''789...456'', ''..456789.'', ''56789...4'',
         ''89...4567'', ''.456789..'', ''6789...45'', ''9...45678'']"

definition prune :: "pos \<Rightarrow> char set \<Rightarrow> board \<Rightarrow> board" where
  "prune p used b = update_tile b p (snd (remove_candidates used (tile_at b p)))"

definition Z :: board where
  "Z = snd (naked_single (prune (0, 2) {CHR ''1''} (prune (0, 1) {CHR ''1''} (tiles_of G3))))"


section \<open>Basic facts\<close>

lemma UNKNOWN_notin_CHOICES: "UNKNOWN \<notin> set CHOICES"
  by (simp add: UNKNOWN_def CHOICES_def)

lemma tile_inv_set_value: "tile_inv (set_value v t)"
  using UNKNOWN_notin_CHOICES by (auto simp: tile_inv_def set_value_def)

lemma card_1_the_elem: "card A = 1 \<Longrightarrow> A = {the_elem A}"
  by (metis card_1_singletonE the_elem_eq)

lemma tile_inv_remove_candidates:
  assumes "tile_inv t" and "value t \<in> set CHOICES \<longrightarrow> value t \<notin> used"
  shows "tile_inv (snd (remove_candidates used t))"
proof (cases "candidates t - used = candidates t")
  case True
  then show ?thesis using assms by (simp add: remove_candidates_def)
next
  case False
  show ?thesis
  proof (cases "card (candidates t - used) = 1")
    case True
    then show ?thesis using False by (simp add: remove_candidates_def Let_def tile_inv_set_value)
  next
    case c: False
    have "value t \<notin> set CHOICES"
    proof
      assume v: "value t \<in> set CHOICES"
      then have "candidates t = {value t}" using assms(1) by (simp add: tile_inv_def)
      moreover have "value t \<notin> used" using assms(2) v by simp
      ultimately show False using False by auto
    qed
    then show ?thesis using False c assms(1)
      by (auto simp: remove_candidates_def Let_def tile_inv_def)
  qed
qed

lemma update_tile_out: "\<not> in_range b p \<Longrightarrow> update_tile b p t = b"
  by (auto simp: update_tile_def in_range_def list_update_beyond not_less)

lemma tile_at_update_same: "in_range b p \<Longrightarrow> tile_at (update_tile b p t) p = t"
  by (simp add: tile_at_def update_tile_def in_range_def)

lemma tile_at_update_other: "q \<noteq> p \<Longrightarrow> tile_at (update_tile b p t) q = tile_at b q"
  by (cases "fst p < length b"; cases "fst q = fst p")
     (auto simp: tile_at_def update_tile_def prod_eq_iff list_update_beyond not_less)

lemma update_tile_same: "update_tile b p (tile_at b p) = b"
  by (simp add: update_tile_def tile_at_def)

lemma in_range_tile: "in_range b p \<Longrightarrow> list_all (list_all P) b \<Longrightarrow> P (tile_at b p)"
  by (simp add: in_range_def tile_at_def list_all_length)

lemma list_all2_update:
  assumes "list_all (list_all P) b" and "in_range b p \<Longrightarrow> P t"
  shows "list_all (list_all P) (update_tile b p t)"
proof (cases "in_range b p")
  case False
  then show ?thesis using assms(1) by (simp add: update_tile_out)
next
  case True
  have "P (update_tile b p t ! n ! na)"
    if "n < length b" "na < length (update_tile b p t ! n)" for n na
    using that True assms
    by (cases "n = fst p"; cases "na = snd p")
       (auto simp: list_all_length update_tile_def in_range_def)
  then show ?thesis by (simp add: list_all_length update_tile_def)
qed

lemma stable_set_value:
  "stable Q \<Longrightarrow> Q b \<Longrightarrow> Q (update_tile b p (set_value v (tile_at b p)))"
  unfolding stable_def by blast

lemma stable_remove_candidates:
  "stable Q \<Longrightarrow> Q b \<Longrightarrow> value (tile_at b p) = UNKNOWN \<Longrightarrow>
   Q (update_tile b p (snd (remove_candidates used (tile_at b p))))"
  unfolding stable_def by blast

lemma fold_preserves:
  assumes "\<And>x s. x \<in> set xs \<Longrightarrow> Q s \<Longrightarrow> Q (f x s)" and "Q s"
  shows "Q (fold f xs s)"
  using assms by (induction xs arbitrary: s) auto

lemma for_each_preserves:
  assumes "\<And>x s s'. x \<in> set xs \<Longrightarrow> Q s \<Longrightarrow> f x s = Inr s' \<Longrightarrow> Q s'"
    and "Q s" and "for_each f xs s = Inr s'"
  shows "Q s'"
  using assms
proof (induction xs arbitrary: s)
  case Nil
  then show ?case by simp
next
  case (Cons x xs)
  from Cons.prems(3) obtain s1 where s1: "f x s = Inr s1" and r: "for_each f xs s1 = Inr s'"
    by (auto split: sum.splits)
  have "Q s1" using Cons.prems(1)[of x s s1] Cons.prems(2) s1 by simp
  then show ?case using Cons.IH[of s1] Cons.prems(1) r by auto
qed

lemma stable_naked_tile: "stable Q \<Longrightarrow> Q (snd s) \<Longrightarrow> Q (snd (naked_tile used p s))"
  by (auto simp: naked_tile_def Let_def stable_remove_candidates)

lemma stable_naked_group: "stable Q \<Longrightarrow> Q (snd s) \<Longrightarrow> Q (snd (naked_group g s))"
  unfolding naked_group_def
  by (rule fold_preserves[where Q = "\<lambda>s. Q (snd s)"]) (auto intro: stable_naked_tile)

lemma stable_naked_single: "stable Q \<Longrightarrow> Q b \<Longrightarrow> Q (snd (naked_single b))"
  unfolding naked_single_def
  by (rule fold_preserves[where Q = "\<lambda>s. Q (snd s)"]) (auto intro: stable_naked_group)

lemma stable_hidden_value: "stable Q \<Longrightarrow> Q (snd s) \<Longrightarrow> Q (snd (hidden_value g v s))"
  by (auto simp: hidden_value_def Let_def stable_set_value)

lemma stable_hidden_group: "stable Q \<Longrightarrow> Q (snd s) \<Longrightarrow> Q (snd (hidden_group iter g s))"
  unfolding hidden_group_def
  by (rule fold_preserves[where Q = "\<lambda>s. Q (snd s)"]) (auto intro: stable_hidden_value)

lemma stable_hidden_single: "stable Q \<Longrightarrow> Q b \<Longrightarrow> Q (snd (hidden_single iter b))"
  unfolding hidden_single_def
  by (rule fold_preserves[where Q = "\<lambda>s. Q (snd s)"]) (auto intro: stable_hidden_group)

lemma stable_propagate_step: "stable Q \<Longrightarrow> Q (snd s) \<Longrightarrow> Q (snd (propagate_step iter s))"
  by (simp add: propagate_step_def Let_def stable_hidden_single stable_naked_single)

lemma propagate_SomeD:
  "propagate iter b = Some b' \<Longrightarrow> \<exists>pr. while_option fst (propagate_step iter) (True, b) = Some (pr, b')"
  by (auto simp: propagate_def)

lemma stable_propagate:
  assumes "stable Q" and "Q b" and "propagate iter b = Some b'"
  shows "Q b'"
proof -
  from assms(3) obtain pr where w: "while_option fst (propagate_step iter) (True, b) = Some (pr, b')"
    by (auto dest: propagate_SomeD)
  have "Q (snd (pr, b'))"
    by (rule while_option_rule[where P = "\<lambda>s. Q (snd s)", OF _ w])
       (auto simp: assms stable_propagate_step)
  then show ?thesis by simp
qed

lemma stable_set_tile: "stable Q \<Longrightarrow> Q b \<Longrightarrow> set_tile vs r c b = Inr b' \<Longrightarrow> Q b'"
  by (auto simp: set_tile_def stable_set_value split: if_splits)

lemma stable_set_tiles:
  assumes "stable Q" and "Q b" and "set_tiles vs b = Inr b'"
  shows "Q b'"
proof -
  have row: "Q s'" if "Q s" "for_each (set_tile vs r) [0..<NCOLS] s = Inr s'" for r s s'
    using that(1) that(2) for_each_preserves[where Q = Q and f = "set_tile vs r"] stable_set_tile[OF assms(1)]
    by blast
  show ?thesis
    using assms(3) unfolding set_tiles_def
    by (rule for_each_preserves[where Q = Q, rotated 2]) (auto intro: row assms(2))
qed

lemma stable_solve_guess_loop:
  assumes st: "stable Q"
  shows "Q b \<Longrightarrow> solve iter n b = Some (Inr (r, b')) \<Longrightarrow> Q b'"
    and "Q b \<Longrightarrow> guess_loop iter n saved t vs b = Some (Inr (r, b')) \<Longrightarrow> Q b'"
proof (induction iter n b and iter n saved t vs b arbitrary: r b' and r b' rule: solve_guess_loop.induct)
  case (1 iter b)
  then show ?case by simp
next
  case (2 iter n b)
  from "2.prems"(2) obtain b1 where p: "propagate iter b = Some b1"
    by (auto split: option.splits)
  have q1: "Q b1" using stable_propagate[OF st "2.prems"(1) p] .
  show ?case
  proof (cases "is_complete b1")
    case True
    then show ?thesis using "2.prems"(2) p q1 by simp
  next
    case nc: False
    show ?thesis
    proof (cases "is_consistent b1")
      case False
      then show ?thesis using "2.prems"(2) p q1 nc by simp
    next
      case True
      from "2.prems"(2) p nc True obtain tg where
        m: "min_choice_tile b1 = Some tg" and
        g: "guess_loop iter n (as_list b1) tg (iter (candidates (tile_at b1 tg))) b1 = Some (Inr (r, b'))"
        by (auto split: option.splits simp: Let_def)
      show ?thesis
        using "2.IH"[OF p nc _ refl m q1 g] True by simp
    qed
  qed
next
  case (3 iter n saved t b)
  then show ?case by simp
next
  case (4 iter n saved t v vs b)
  let ?b0 = "update_tile b t (set_value v (tile_at b t))"
  have q0: "Q ?b0" using st "4.prems"(1) by (rule stable_set_value)
  from "4.prems"(2) obtain r1 b1 where s: "solve iter n ?b0 = Some (Inr (r1, b1))"
    by (auto split: option.splits sum.splits)
  have q1: "Q b1" using "4.IH"(1)[OF q0 s] .
  show ?case
  proof (cases r1)
    case True
    then show ?thesis using "4.prems"(2) s q1 by simp
  next
    case False
    from "4.prems"(2) s False obtain b2 where
      t: "set_tiles saved b1 = Inr b2" and g: "guess_loop iter n saved t vs b2 = Some (Inr (r, b'))"
      by (auto split: sum.splits)
    have q2: "Q b2" using stable_set_tiles[OF st q1 t] .
    have r1f: "r1 = False" using False by simp
    show ?thesis using "4.IH"(2)[OF s refl refl r1f t q2 g] .
  qed
qed

lemma map_length_update: "map length (update_tile b p t) = map length b"
proof (cases "fst p < length b")
  case True
  then show ?thesis by (simp add: update_tile_def map_update list_update_same_conv)
next
  case False
  then show ?thesis by (simp add: update_tile_def list_update_beyond)
qed

lemma well_shaped_iff: "well_shaped b = (map length b = replicate NROWS NCOLS)"
  by (auto simp: well_shaped_def list_all_length list_eq_iff_nth_eq)

lemma well_shaped_update: "well_shaped (update_tile b p t) = well_shaped b"
  by (simp add: well_shaped_iff map_length_update)

lemma well_shaped_in_range:
  "well_shaped b \<Longrightarrow> fst p < NROWS \<Longrightarrow> snd p < NCOLS \<Longrightarrow> in_range b p"
  by (simp add: well_shaped_def in_range_def list_all_length)

lemma stable_well_shaped: "stable well_shaped"
  by (simp add: stable_def well_shaped_update)

lemma stable_board_inv: "stable board_inv"
  unfolding stable_def board_inv_def
proof (intro conjI allI impI)
  fix b p v
  assume "list_all (list_all tile_inv) b"
  then show "list_all (list_all tile_inv) (update_tile b p (set_value v (tile_at b p)))"
    by (rule list_all2_update) (rule tile_inv_set_value)
next
  fix b p used
  assume a: "list_all (list_all tile_inv) b \<and> value (tile_at b p) = UNKNOWN"
  show "list_all (list_all tile_inv) (update_tile b p (snd (remove_candidates used (tile_at b p))))"
  proof (rule list_all2_update)
    show "list_all (list_all tile_inv) b" using a by simp
    assume "in_range b p"
    then have "tile_inv (tile_at b p)" using a by (simp add: in_range_tile)
    then show "tile_inv (snd (remove_candidates used (tile_at b p)))"
      using a UNKNOWN_notin_CHOICES by (intro tile_inv_remove_candidates) auto
  qed
qed

lemma for_each_append:
  "for_each f (xs @ ys) s = (case for_each f xs s of Inl e \<Rightarrow> Inl e | Inr s' \<Rightarrow> for_each f ys s')"
  by (induction xs arbitrary: s) (auto split: sum.splits)

lemma set_tiles_row:
  assumes "well_shaped b" and "r < NROWS" and "r < length vs" and "n \<le> NCOLS"
    and "NCOLS \<le> length (vs ! r)"
  shows "\<exists>b'. for_each (set_tile vs r) [0..<n] b = Inr b' \<and> well_shaped b' \<and>
           (\<forall>q. tile_at b' q =
              (if fst q = r \<and> snd q < n then set_value (vs ! r ! snd q) (tile_at b q)
               else tile_at b q))"
  using assms(4)
proof (induction n)
  case 0
  then show ?case using assms(1) by simp
next
  case (Suc n)
  then obtain b1 where b1: "for_each (set_tile vs r) [0..<n] b = Inr b1" "well_shaped b1"
    and t1: "\<And>q. tile_at b1 q =
              (if fst q = r \<and> snd q < n then set_value (vs ! r ! snd q) (tile_at b q)
               else tile_at b q)"
    by auto
  let ?b2 = "update_tile b1 (r, n) (set_value (vs ! r ! n) (tile_at b1 (r, n)))"
  have s: "set_tile vs r n b1 = Inr ?b2"
    using assms(3,5) Suc.prems by (simp add: set_tile_def)
  have ir: "in_range b1 (r, n)"
    using b1(2) assms(2) Suc.prems by (intro well_shaped_in_range) auto
  have "tile_at ?b2 q =
          (if fst q = r \<and> snd q < Suc n then set_value (vs ! r ! snd q) (tile_at b q)
           else tile_at b q)" for q
  proof (cases "q = (r, n)")
    case True
    then show ?thesis using ir t1[of "(r, n)"] by (simp add: tile_at_update_same)
  next
    case False
    then have "\<not> (fst q = r \<and> snd q = n)" by (auto simp: prod_eq_iff)
    then show ?thesis using False t1[of q] by (auto simp: tile_at_update_other less_Suc_eq)
  qed
  moreover have "well_shaped ?b2" using b1(2) by (simp add: well_shaped_update)
  moreover have "for_each (set_tile vs r) [0..<Suc n] b = Inr ?b2"
    using b1(1) s by (simp add: for_each_append)
  ultimately show ?case by blast
qed

lemma set_tiles_rows:
  assumes "well_shaped b" and "m \<le> NROWS" and "NROWS \<le> length vs"
    and "\<forall>r<NROWS. NCOLS \<le> length (vs ! r)"
  shows "\<exists>b'. for_each (\<lambda>r. for_each (set_tile vs r) [0..<NCOLS]) [0..<m] b = Inr b' \<and>
           well_shaped b' \<and>
           (\<forall>q. tile_at b' q =
              (if fst q < m \<and> snd q < NCOLS then set_value (vs ! fst q ! snd q) (tile_at b q)
               else tile_at b q))"
  using assms(2)
proof (induction m)
  case 0
  then show ?case using assms(1) by simp
next
  case (Suc m)
  then obtain b1 where b1: "for_each (\<lambda>r. for_each (set_tile vs r) [0..<NCOLS]) [0..<m] b = Inr b1"
      "well_shaped b1"
    and t1: "\<And>q. tile_at b1 q =
              (if fst q < m \<and> snd q < NCOLS then set_value (vs ! fst q ! snd q) (tile_at b q)
               else tile_at b q)"
    by auto
  have "m < NROWS" "m < length vs" "NCOLS \<le> length (vs ! m)"
    using Suc.prems assms(3,4) by auto
  from set_tiles_row[OF b1(2) this(1) this(2) order_refl this(3)]
  obtain b2 where b2: "for_each (set_tile vs m) [0..<NCOLS] b1 = Inr b2" "well_shaped b2"
    and t2: "\<And>q. tile_at b2 q =
              (if fst q = m \<and> snd q < NCOLS then set_value (vs ! m ! snd q) (tile_at b1 q)
               else tile_at b1 q)"
    by auto
  have "tile_at b2 q =
          (if fst q < Suc m \<and> snd q < NCOLS then set_value (vs ! fst q ! snd q) (tile_at b q)
           else tile_at b q)" for q
    using t1[of q] t2[of q] by (auto simp: less_Suc_eq)
  moreover have "for_each (\<lambda>r. for_each (set_tile vs r) [0..<NCOLS]) [0..<Suc m] b = Inr b2"
    using b1(1) b2(1) by (simp add: for_each_append)
  ultimately show ?case using b2(2) by blast
qed

lemma set_tiles_ok:
  assumes "well_shaped b" and "NROWS \<le> length vs" and "\<forall>r<NROWS. NCOLS \<le> length (vs ! r)"
  shows "\<exists>b'. set_tiles vs b = Inr b' \<and> well_shaped b' \<and>
           (\<forall>r<NROWS. \<forall>c<NCOLS. tile_at b' (r, c) = set_value (vs ! r ! c) (tile_at b (r, c)))"
  using set_tiles_rows[OF assms(1) order_refl assms(2,3)] unfolding set_tiles_def
  by fastforce

lemma min_choice_fold:
  "(if \<forall>p\<in>set ps. value (tile_at b p) \<noteq> UNKNOWN
    then fold (min_choice_step b) ps (None, None) = (None, None)
    else \<exists>i<length ps.
           fold (min_choice_step b) ps (None, None)
             = (Some (card (candidates (tile_at b (ps ! i)))), Some (ps ! i)) \<and>
           value (tile_at b (ps ! i)) = UNKNOWN \<and>
           (\<forall>j<i. value (tile_at b (ps ! j)) = UNKNOWN \<longrightarrow>
              card (candidates (tile_at b (ps ! i))) < card (candidates (tile_at b (ps ! j)))) \<and>
           (\<forall>j<length ps. value (tile_at b (ps ! j)) = UNKNOWN \<longrightarrow>
              card (candidates (tile_at b (ps ! i))) \<le> card (candidates (tile_at b (ps ! j)))))"
proof (induction ps rule: rev_induct)
  case Nil
  then show ?case by simp
next
  case (snoc x ps)
  let ?n = "\<lambda>p. card (candidates (tile_at b p))"
  let ?u = "\<lambda>p. value (tile_at b p) = UNKNOWN"
  let ?s0 = "fold (min_choice_step b) ps (None, None)"
  have f: "fold (min_choice_step b) (ps @ [x]) (None, None) = min_choice_step b x ?s0"
    by simp
  show ?case
  proof (cases "?u x")
    case kx: False
    then have s: "min_choice_step b x ?s0 = ?s0" by (simp add: min_choice_step_def)
    show ?thesis
    proof (cases "\<forall>p\<in>set ps. \<not> ?u p")
      case True
      then show ?thesis using snoc kx s f by auto
    next
      case False
      with snoc obtain i where i: "i < length ps"
        "?s0 = (Some (?n (ps ! i)), Some (ps ! i))" "?u (ps ! i)"
        "\<forall>j<i. ?u (ps ! j) \<longrightarrow> ?n (ps ! i) < ?n (ps ! j)"
        "\<forall>j<length ps. ?u (ps ! j) \<longrightarrow> ?n (ps ! i) \<le> ?n (ps ! j)"
        by auto
      have "\<exists>i<length (ps @ [x]).
           fold (min_choice_step b) (ps @ [x]) (None, None)
             = (Some (?n ((ps @ [x]) ! i)), Some ((ps @ [x]) ! i)) \<and>
           ?u ((ps @ [x]) ! i) \<and>
           (\<forall>j<i. ?u ((ps @ [x]) ! j) \<longrightarrow> ?n ((ps @ [x]) ! i) < ?n ((ps @ [x]) ! j)) \<and>
           (\<forall>j<length (ps @ [x]). ?u ((ps @ [x]) ! j) \<longrightarrow> ?n ((ps @ [x]) ! i) \<le> ?n ((ps @ [x]) ! j))"
        using i kx s f by (intro exI[of _ i]) (auto simp: nth_append less_Suc_eq)
      then show ?thesis using False by auto
    qed
  next
    case ux: True
    have goal: "\<exists>i<length (ps @ [x]).
           fold (min_choice_step b) (ps @ [x]) (None, None)
             = (Some (?n ((ps @ [x]) ! i)), Some ((ps @ [x]) ! i)) \<and>
           ?u ((ps @ [x]) ! i) \<and>
           (\<forall>j<i. ?u ((ps @ [x]) ! j) \<longrightarrow> ?n ((ps @ [x]) ! i) < ?n ((ps @ [x]) ! j)) \<and>
           (\<forall>j<length (ps @ [x]). ?u ((ps @ [x]) ! j) \<longrightarrow> ?n ((ps @ [x]) ! i) \<le> ?n ((ps @ [x]) ! j))"
    proof (cases "\<forall>p\<in>set ps. \<not> ?u p")
      case True
      with snoc have s0: "?s0 = (None, None)" by auto
      have s: "min_choice_step b x ?s0 = (Some (?n x), Some x)"
        using ux s0 by (simp add: min_choice_step_def)
      have k: "\<not> ?u (ps ! j)" if "j < length ps" for j using True that by auto
      show ?thesis using s f ux k
        by (intro exI[of _ "length ps"]) (auto simp: nth_append less_Suc_eq)
    next
      case False
      with snoc obtain i where i: "i < length ps"
        "?s0 = (Some (?n (ps ! i)), Some (ps ! i))" "?u (ps ! i)"
        "\<forall>j<i. ?u (ps ! j) \<longrightarrow> ?n (ps ! i) < ?n (ps ! j)"
        "\<forall>j<length ps. ?u (ps ! j) \<longrightarrow> ?n (ps ! i) \<le> ?n (ps ! j)"
        by auto
      show ?thesis
      proof (cases "?n x < ?n (ps ! i)")
        case True
        then have s: "min_choice_step b x ?s0 = (Some (?n x), Some x)"
          using ux i(2) by (simp add: min_choice_step_def)
        have k: "?n x < ?n (ps ! j)" if "j < length ps" "?u (ps ! j)" for j
          using i(5) that True by (meson le_less_trans less_le_trans not_le)
        show ?thesis using s f ux k
          by (intro exI[of _ "length ps"]) (auto simp: nth_append less_Suc_eq intro: less_imp_le)
      next
        case nl: False
        then have s: "min_choice_step b x ?s0 = ?s0"
          using ux i(2) by (simp add: min_choice_step_def)
        show ?thesis using i nl s f
          by (intro exI[of _ i]) (auto simp: nth_append less_Suc_eq)
      qed
    qed
    then show ?thesis using ux by auto
  qed
qed

lemma fold_concat_groups: "fold f (concat xss) s = fold (\<lambda>xs. fold f xs) xss s"
  by (induction xss arbitrary: s) auto

lemma min_choice_tile_concat:
  "min_choice_tile b = snd (fold (min_choice_step b) (concat groups) (None, None))"
  by (simp add: min_choice_tile_def fold_concat_groups)

lemma is_complete_iff:
  "is_complete b = (\<forall>p\<in>set (concat groups). value (tile_at b p) \<noteq> UNKNOWN)"
  by (auto simp: is_complete_def list_all_iff)

lemma fits_rows: "fits vs \<Longrightarrow> r < NROWS \<Longrightarrow> NCOLS \<le> length (vs ! r)"
  by (auto simp: fits_def list_all_length)

section \<open>Loading and saving the grid\<close>

lemma board_ext:
  assumes "well_shaped b" and "well_shaped b'"
    and "\<And>r c. r < NROWS \<Longrightarrow> c < NCOLS \<Longrightarrow> tile_at b (r, c) = tile_at b' (r, c)"
  shows "b = b'"
proof (rule nth_equalityI)
  show "length b = length b'" using assms(1,2) by (simp add: well_shaped_def)
  fix r assume r: "r < length b"
  then have rn: "r < NROWS" using assms(1) by (simp add: well_shaped_def)
  have l: "length (b ! r) = NCOLS" "length (b' ! r) = NCOLS"
    using assms(1,2) rn by (simp_all add: well_shaped_def list_all_length)
  show "b ! r = b' ! r"
  proof (rule nth_equalityI)
    show "length (b ! r) = length (b' ! r)" using l by simp
    fix c assume "c < length (b ! r)"
    then have "c < NCOLS" using l by simp
    then show "b ! r ! c = b' ! r ! c" using assms(3)[OF rn] by (simp add: tile_at_def)
  qed
qed

lemma well_shaped_tiles_of: "well_shaped (tiles_of vs)"
  by (simp add: well_shaped_def tiles_of_def list_all_length)

lemma well_shaped_Board: "well_shaped Board"
  by (simp add: well_shaped_def Board_def list_all_length)

lemma tile_at_tiles_of:
  "r < NROWS \<Longrightarrow> c < NCOLS \<Longrightarrow> tile_at (tiles_of vs) (r, c) = new_tile r c (vs ! r ! c)"
  by (simp add: tile_at_def tiles_of_def)

lemma tile_at_Board: "r < NROWS \<Longrightarrow> c < NCOLS \<Longrightarrow> tile_at Board (r, c) = new_tile r c UNKNOWN"
  by (simp add: tile_at_def Board_def)

lemma set_value_new_tile: "set_value v (new_tile r c u) = new_tile r c v"
  by (simp add: new_tile_def set_value_def)

lemma set_tiles_Board:
  assumes "fits vs"
  shows "set_tiles vs Board = Inr (tiles_of vs)"
proof -
  have "NROWS \<le> length vs" "\<forall>r<NROWS. NCOLS \<le> length (vs ! r)"
    using assms by (auto simp: fits_def list_all_length)
  from set_tiles_ok[OF well_shaped_Board this] obtain b' where
    b': "set_tiles vs Board = Inr b'" "well_shaped b'"
    "\<forall>r<NROWS. \<forall>c<NCOLS. tile_at b' (r, c) = set_value (vs ! r ! c) (tile_at Board (r, c))"
    by blast
  have "b' = tiles_of vs"
    using b'(2) well_shaped_tiles_of
    by (rule board_ext) (simp add: b'(3) tile_at_Board tile_at_tiles_of set_value_new_tile)
  then show ?thesis using b'(1) by simp
qed

lemma as_list_nth:
  "well_shaped b \<Longrightarrow> r < NROWS \<Longrightarrow> c < NCOLS \<Longrightarrow> as_list b ! r ! c = value (tile_at b (r, c))"
  by (simp add: as_list_def tile_at_def well_shaped_def list_all_length)

lemma fits_as_list: "well_shaped b \<Longrightarrow> fits (as_list b)"
  by (simp add: fits_def as_list_def well_shaped_def list_all_length)

lemma as_list_eqI:
  assumes "well_shaped b" and "well_shaped b'"
    and "\<And>r c. r < NROWS \<Longrightarrow> c < NCOLS \<Longrightarrow> value (tile_at b (r, c)) = value (tile_at b' (r, c))"
  shows "as_list b = as_list b'"
proof (rule nth_equalityI)
  show "length (as_list b) = length (as_list b')"
    using assms(1,2) by (simp add: well_shaped_def as_list_def)
  fix r assume "r < length (as_list b)"
  then have rn: "r < NROWS" using assms(1) by (simp add: well_shaped_def as_list_def)
  have l: "length (b ! r) = NCOLS" "length (b' ! r) = NCOLS" "r < length b" "r < length b'"
    using assms(1,2) rn by (simp_all add: well_shaped_def list_all_length)
  show "as_list b ! r = as_list b' ! r"
  proof (rule nth_equalityI)
    show "length (as_list b ! r) = length (as_list b' ! r)" using l by (simp add: as_list_def)
    fix c assume "c < length (as_list b ! r)"
    then have cn: "c < NCOLS" using l by (simp add: as_list_def)
    show "as_list b ! r ! c = as_list b' ! r ! c"
      using assms(3)[OF rn cn] as_list_nth[OF assms(1) rn cn] as_list_nth[OF assms(2) rn cn]
      by simp
  qed
qed

lemma fresh_iff: "fresh t = (set_value (value t) t = t)"
proof
  assume "fresh t"
  then show "set_value (value t) t = t"
    by (auto simp: fresh_def tile_wf_def set_value_def)
next
  assume a: "set_value (value t) t = t"
  then have "value (set_value (value t) t) = value t"
    "candidates (set_value (value t) t) = candidates t" by simp_all
  then show "fresh t"
    by (auto simp: fresh_def tile_wf_def set_value_def split: if_splits)
qed

lemma value_set_value_wf: "tile_wf t \<Longrightarrow> value (set_value (value t) t) = value t"
  by (auto simp: tile_wf_def set_value_def)

lemma all_tiles_iff:
  assumes "well_shaped b"
  shows "list_all (list_all P) b = (\<forall>r<NROWS. \<forall>c<NCOLS. P (tile_at b (r, c)))"
  using assms by (auto simp: well_shaped_def list_all_length tile_at_def)

section \<open>Termination of propagation and search\<close>

lemma sum_list_map_update:
  "i < length xs \<Longrightarrow> sum_list (map f (xs[i := x])) + f (xs ! i) = sum_list (map f xs) + (f x :: nat)"
proof (induction xs arbitrary: i)
  case Nil
  then show ?case by simp
next
  case (Cons a xs)
  then show ?case by (cases i) auto
qed

lemma total_update:
  assumes "in_range b p"
  shows "total w (update_tile b p t) + w (tile_at b p) = total w b + w t"
proof -
  let ?r = "fst p" and ?c = "snd p"
  have r: "?r < length b" and c: "?c < length (b ! ?r)" using assms by (simp_all add: in_range_def)
  have "sum_list (map (\<lambda>r. sum_list (map w r)) (b[?r := (b ! ?r)[?c := t]]))
          + sum_list (map w (b ! ?r))
        = sum_list (map (\<lambda>r. sum_list (map w r)) b) + sum_list (map w ((b ! ?r)[?c := t]))"
    using sum_list_map_update[OF r, of "\<lambda>r. sum_list (map w r)" "(b ! ?r)[?c := t]"] .
  moreover have "sum_list (map w ((b ! ?r)[?c := t])) + w (b ! ?r ! ?c) = sum_list (map w (b ! ?r)) + w t"
    using sum_list_map_update[OF c, of w t] .
  ultimately show ?thesis by (simp add: total_def update_tile_def tile_at_def)
qed

lemma total_ge: "in_range b p \<Longrightarrow> w (tile_at b p) \<le> total w b"
proof -
  assume a: "in_range b p"
  then have "b ! fst p \<in> set b" "b ! fst p ! snd p \<in> set (b ! fst p)"
    by (simp_all add: in_range_def)
  then have "w (b ! fst p ! snd p) \<le> sum_list (map w (b ! fst p))"
    "sum_list (map w (b ! fst p)) \<le> sum_list (map (\<lambda>r. sum_list (map w r)) b)"
    by (auto intro!: member_le_sum_list)
  then show ?thesis by (simp add: total_def tile_at_def)
qed

lemma groups_in_grid_eval:
  "list_all (\<lambda>g. list_all (\<lambda>p. fst p < NROWS \<and> snd p < NCOLS) g) groups"
  by code_simp

lemma groups_in_grid: "g \<in> set groups \<Longrightarrow> p \<in> set g \<Longrightarrow> fst p < NROWS \<and> snd p < NCOLS"
  using groups_in_grid_eval by (simp add: list_all_iff)

lemma groups_in_range: "well_shaped b \<Longrightarrow> g \<in> set groups \<Longrightarrow> p \<in> set g \<Longrightarrow> in_range b p"
  using groups_in_grid by (blast intro: well_shaped_in_range)

lemma tile_wf_set_value: "tile_wf (set_value v t)"
  by (simp add: tile_wf_def set_value_def)

lemma tile_wf_remove_candidates: "tile_wf t \<Longrightarrow> tile_wf (snd (remove_candidates used t))"
  by (auto simp: remove_candidates_def Let_def tile_wf_set_value) (simp add: tile_wf_def)

lemma stable_tile_wf: "stable (\<lambda>b. list_all (list_all tile_wf) b)"
  unfolding stable_def
proof (intro conjI allI impI)
  fix b p v
  assume "list_all (list_all tile_wf) b"
  then show "list_all (list_all tile_wf) (update_tile b p (set_value v (tile_at b p)))"
    by (rule list_all2_update) (rule tile_wf_set_value)
next
  fix b p used
  assume a: "list_all (list_all tile_wf) b \<and> value (tile_at b p) = UNKNOWN"
  show "list_all (list_all tile_wf) (update_tile b p (snd (remove_candidates used (tile_at b p))))"
  proof (rule list_all2_update)
    show "list_all (list_all tile_wf) b" using a by simp
    assume "in_range b p"
    then have "tile_wf (tile_at b p)" using a by (simp add: in_range_tile)
    then show "tile_wf (snd (remove_candidates used (tile_at b p)))"
      by (rule tile_wf_remove_candidates)
  qed
qed

lemma stable_conj: "stable P \<Longrightarrow> stable Q \<Longrightarrow> stable (\<lambda>b. P b \<and> Q b)"
  unfolding stable_def by blast

lemma stable_board_ok: "stable board_ok"
proof -
  have "stable (\<lambda>b. well_shaped b \<and> (board_inv b \<and> list_all (list_all tile_wf) b))"
    by (intro stable_conj stable_well_shaped stable_board_inv stable_tile_wf)
  then show ?thesis by (simp add: board_ok_def[abs_def])
qed

lemma board_ok_tile:
  assumes "board_ok b" and "in_range b p"
  shows "tile_inv (tile_at b p)" and "tile_wf (tile_at b p)"
  using assms by (simp_all add: board_ok_def board_inv_def in_range_tile)

lemma remove_candidates_changed:
  assumes "candidates t \<subseteq> set CHOICES" and "candidates t - used \<noteq> candidates t"
  shows "candidates (snd (remove_candidates used t)) = candidates t - used"
proof (cases "card (candidates t - used) = 1")
  case True
  then have e: "candidates t - used = {the_elem (candidates t - used)}"
    by (rule card_1_the_elem)
  then have "the_elem (candidates t - used) \<in> set CHOICES" using assms(1) by blast
  then show ?thesis using assms(2) True e
    by (simp add: remove_candidates_def Let_def set_value_def)
next
  case False
  then show ?thesis using assms(2) by (simp add: remove_candidates_def Let_def)
qed

lemma remove_candidates_weights:
  assumes "tile_inv t" and "value t = UNKNOWN"
  shows "\<not> fst (remove_candidates used t) \<longrightarrow> snd (remove_candidates used t) = t"
    and "fst (remove_candidates used t) \<longrightarrow>
           card (candidates (snd (remove_candidates used t))) < card (candidates t)"
proof -
  have sub: "candidates t \<subseteq> set CHOICES" using assms by (simp add: tile_inv_def)
  show "\<not> fst (remove_candidates used t) \<longrightarrow> snd (remove_candidates used t) = t"
    by (simp add: remove_candidates_def Let_def)
  show "fst (remove_candidates used t) \<longrightarrow>
           card (candidates (snd (remove_candidates used t))) < card (candidates t)"
  proof
    assume "fst (remove_candidates used t)"
    then have ne: "candidates t - used \<noteq> candidates t"
      by (auto simp: remove_candidates_def Let_def split: if_splits)
    then have "candidates t - used \<subset> candidates t" by blast
    then have less: "card (candidates t - used) < card (candidates t)"
      by (intro psubset_card_mono) simp_all
    have "candidates (snd (remove_candidates used t)) = candidates t - used"
      using remove_candidates_changed[OF sub ne] .
    then show "card (candidates (snd (remove_candidates used t))) < card (candidates t)"
      using less by simp
  qed
qed

lemma remove_candidates_unknown_weight:
  "value t = UNKNOWN \<Longrightarrow>
   (if value (snd (remove_candidates used t)) = UNKNOWN then 1 else 0) \<le> (1::nat)"
  by simp

lemma naked_tile_measure:
  assumes "board_ok (snd s)" and "in_range (snd s) p"
  shows "nu (naked_tile used p s) \<le> nu s"
    and "unknown_count (snd (naked_tile used p s)) \<le> unknown_count (snd s)"
proof -
  let ?b = "snd s" and ?t = "tile_at (snd s) p"
  let ?r = "remove_candidates used ?t"
  show "nu (naked_tile used p s) \<le> nu s"
  proof (cases "value ?t = UNKNOWN")
    case False
    then show ?thesis by (simp add: naked_tile_def)
  next
    case u: True
    have inv: "tile_inv ?t" using board_ok_tile[OF assms] by simp
    show ?thesis
    proof (cases "fst ?r")
      case False
      then have "snd ?r = ?t" using remove_candidates_weights(1)[OF inv u] by simp
      then show ?thesis using u False by (simp add: naked_tile_def Let_def update_tile_same)
    next
      case True
      then have "card (candidates (snd ?r)) < card (candidates ?t)"
        using remove_candidates_weights(2)[OF inv u] by simp
      moreover have "cand_sum (update_tile ?b p (snd ?r)) + card (candidates ?t)
          = cand_sum ?b + card (candidates (snd ?r))"
        unfolding cand_sum_def using total_update[OF assms(2)] .
      ultimately have "cand_sum (update_tile ?b p (snd ?r)) + 1 \<le> cand_sum ?b" by linarith
      then show ?thesis using u True by (simp add: naked_tile_def Let_def nu_def)
    qed
  qed
  show "unknown_count (snd (naked_tile used p s)) \<le> unknown_count (snd s)"
  proof (cases "value ?t = UNKNOWN")
    case False
    then show ?thesis by (simp add: naked_tile_def)
  next
    case u: True
    have "unknown_count (update_tile ?b p (snd ?r)) + (if value ?t = UNKNOWN then 1 else 0)
          = unknown_count ?b + (if value (snd ?r) = UNKNOWN then 1 else 0)"
      unfolding unknown_count_def using total_update[OF assms(2)] .
    then have "unknown_count (update_tile ?b p (snd ?r)) \<le> unknown_count ?b"
      using u by (simp split: if_splits)
    then show ?thesis using u by (simp add: naked_tile_def Let_def)
  qed
qed

lemma naked_tile_ok: "board_ok (snd s) \<Longrightarrow> board_ok (snd (naked_tile used p s))"
  by (rule stable_naked_tile[OF stable_board_ok])

lemma naked_group_measure:
  assumes "board_ok (snd s)" and "g \<in> set groups"
  shows "board_ok (snd (naked_group g s)) \<and> nu (naked_group g s) \<le> nu s \<and>
         unknown_count (snd (naked_group g s)) \<le> unknown_count (snd s)"
  unfolding naked_group_def
proof (rule fold_preserves[where Q = "\<lambda>s'. board_ok (snd s') \<and> nu s' \<le> nu s \<and>
         unknown_count (snd s') \<le> unknown_count (snd s)"])
  show "board_ok (snd s) \<and> nu s \<le> nu s \<and> unknown_count (snd s) \<le> unknown_count (snd s)"
    using assms(1) by simp
next
  fix p s' assume p: "p \<in> set g"
    and a: "board_ok (snd s') \<and> nu s' \<le> nu s \<and> unknown_count (snd s') \<le> unknown_count (snd s)"
  let ?u = "set (group_values (snd s) g)"
  have ir: "in_range (snd s') p"
    using a assms(2) p by (auto intro: groups_in_range simp: board_ok_def)
  show "board_ok (snd (naked_tile ?u p s')) \<and> nu (naked_tile ?u p s') \<le> nu s \<and>
         unknown_count (snd (naked_tile ?u p s')) \<le> unknown_count (snd s)"
    using naked_tile_measure[of s' p ?u] naked_tile_ok[of s' ?u p] a ir by auto
qed

lemma naked_single_measure:
  assumes "board_ok b"
  shows "board_ok (snd (naked_single b))"
    and "cand_sum (snd (naked_single b)) + (if fst (naked_single b) then 1 else 0) \<le> cand_sum b"
    and "unknown_count (snd (naked_single b)) \<le> unknown_count b"
proof -
  have "board_ok (snd (naked_single b)) \<and> nu (naked_single b) \<le> nu (False, b) \<and>
        unknown_count (snd (naked_single b)) \<le> unknown_count (snd (False, b))"
    unfolding naked_single_def
  proof (rule fold_preserves[where Q = "\<lambda>s'. board_ok (snd s') \<and> nu s' \<le> nu (False, b) \<and>
         unknown_count (snd s') \<le> unknown_count (snd (False, b))"])
    show "board_ok (snd (False, b)) \<and> nu (False, b) \<le> nu (False, b) \<and>
          unknown_count (snd (False, b)) \<le> unknown_count (snd (False, b))"
      using assms by simp
  next
    fix g s' assume "g \<in> set groups"
      and "board_ok (snd s') \<and> nu s' \<le> nu (False, b) \<and>
           unknown_count (snd s') \<le> unknown_count (snd (False, b))"
    then show "board_ok (snd (naked_group g s')) \<and> nu (naked_group g s') \<le> nu (False, b) \<and>
           unknown_count (snd (naked_group g s')) \<le> unknown_count (snd (False, b))"
      using naked_group_measure[of s' g] by auto
  qed
  then show "board_ok (snd (naked_single b))"
    and "cand_sum (snd (naked_single b)) + (if fst (naked_single b) then 1 else 0) \<le> cand_sum b"
    and "unknown_count (snd (naked_single b)) \<le> unknown_count b"
    by (simp_all add: nu_def)
qed

lemma leftovers_subset: "leftovers_of b g \<subseteq> set CHOICES"
  unfolding leftovers_of_def
  by (rule fold_preserves[where Q = "\<lambda>l. l \<subseteq> set CHOICES"]) auto

lemma hidden_value_measure:
  assumes "board_ok (snd s)" and "g \<in> set groups" and "v \<in> set CHOICES"
  shows "cand_sum (snd (hidden_value g v s)) \<le> cand_sum (snd s)"
    and "unknown_count (snd (hidden_value g v s)) \<le> unknown_count (snd s)"
proof -
  let ?b = "snd s"
  let ?ps = "filter (\<lambda>p. v \<in> candidates (tile_at ?b p)) g"
  show "cand_sum (snd (hidden_value g v s)) \<le> cand_sum (snd s)"
  proof (cases "length ?ps = 1")
    case False
    then show ?thesis by (simp add: hidden_value_def)
  next
    case True
    then have "?ps ! 0 \<in> set ?ps" by (intro nth_mem) simp
    then have p: "?ps ! 0 \<in> set g" "v \<in> candidates (tile_at ?b (?ps ! 0))" by auto
    have ir: "in_range ?b (?ps ! 0)"
      using assms(1,2) p(1) by (auto intro: groups_in_range simp: board_ok_def)
    have "card (candidates (set_value v (tile_at ?b (?ps ! 0)))) = 1"
      using assms(3) by (simp add: set_value_def)
    moreover have "1 \<le> card (candidates (tile_at ?b (?ps ! 0)))"
      using p(2) by (metis One_nat_def Suc_leI card_gt_0_iff empty_iff finite_code)
    moreover have "cand_sum (update_tile ?b (?ps ! 0) (set_value v (tile_at ?b (?ps ! 0))))
          + card (candidates (tile_at ?b (?ps ! 0)))
        = cand_sum ?b + card (candidates (set_value v (tile_at ?b (?ps ! 0))))"
      unfolding cand_sum_def using total_update[OF ir] .
    ultimately have "cand_sum (update_tile ?b (?ps ! 0) (set_value v (tile_at ?b (?ps ! 0))))
        \<le> cand_sum ?b" by linarith
    then show ?thesis using True by (simp add: hidden_value_def Let_def)
  qed
  show "unknown_count (snd (hidden_value g v s)) \<le> unknown_count (snd s)"
  proof (cases "length ?ps = 1")
    case False
    then show ?thesis by (simp add: hidden_value_def)
  next
    case True
    then have "?ps ! 0 \<in> set ?ps" by (intro nth_mem) simp
    then have p: "?ps ! 0 \<in> set g" by auto
    have ir: "in_range ?b (?ps ! 0)"
      using assms(1,2) p(1) by (auto intro: groups_in_range simp: board_ok_def)
    have "value (set_value v (tile_at ?b (?ps ! 0))) \<noteq> UNKNOWN"
      using assms(3) UNKNOWN_notin_CHOICES by (auto simp: set_value_def)
    moreover have "unknown_count (update_tile ?b (?ps ! 0) (set_value v (tile_at ?b (?ps ! 0))))
          + (if value (tile_at ?b (?ps ! 0)) = UNKNOWN then 1 else 0)
        = unknown_count ?b
          + (if value (set_value v (tile_at ?b (?ps ! 0))) = UNKNOWN then 1 else 0)"
      unfolding unknown_count_def using total_update[OF ir] .
    ultimately have "unknown_count (update_tile ?b (?ps ! 0) (set_value v (tile_at ?b (?ps ! 0))))
        \<le> unknown_count ?b" by (simp split: if_splits)
    then show ?thesis using True by (simp add: hidden_value_def Let_def)
  qed
qed

lemma hidden_group_measure:
  assumes "iter_sound iter" and "board_ok (snd s)" and "g \<in> set groups"
  shows "board_ok (snd (hidden_group iter g s)) \<and>
         cand_sum (snd (hidden_group iter g s)) \<le> cand_sum (snd s) \<and>
         unknown_count (snd (hidden_group iter g s)) \<le> unknown_count (snd s)"
  unfolding hidden_group_def
proof (rule fold_preserves[where Q = "\<lambda>s'. board_ok (snd s') \<and>
         cand_sum (snd s') \<le> cand_sum (snd s) \<and> unknown_count (snd s') \<le> unknown_count (snd s)"])
  show "board_ok (snd s) \<and> cand_sum (snd s) \<le> cand_sum (snd s) \<and>
        unknown_count (snd s) \<le> unknown_count (snd s)"
    using assms(2) by simp
next
  fix v and s' :: "bool \<times> board"
  assume v: "v \<in> set (iter (leftovers_of (snd s) g))"
    and a: "board_ok (snd s') \<and> cand_sum (snd s') \<le> cand_sum (snd s) \<and>
            unknown_count (snd s') \<le> unknown_count (snd s)"
  have "v \<in> set CHOICES"
    using v assms(1) leftovers_subset[of "snd s" g] by (auto simp: iter_sound_def)
  then show "board_ok (snd (hidden_value g v s')) \<and>
        cand_sum (snd (hidden_value g v s')) \<le> cand_sum (snd s) \<and>
        unknown_count (snd (hidden_value g v s')) \<le> unknown_count (snd s)"
    using hidden_value_measure[of s' g v] stable_hidden_value[OF stable_board_ok, of s' g v]
      a assms(3) by auto
qed

lemma hidden_single_measure:
  assumes "iter_sound iter" and "board_ok b"
  shows "board_ok (snd (hidden_single iter b))"
    and "cand_sum (snd (hidden_single iter b)) \<le> cand_sum b"
    and "unknown_count (snd (hidden_single iter b)) \<le> unknown_count b"
proof -
  have "board_ok (snd (hidden_single iter b)) \<and>
        cand_sum (snd (hidden_single iter b)) \<le> cand_sum b \<and>
        unknown_count (snd (hidden_single iter b)) \<le> unknown_count b"
    unfolding hidden_single_def
  proof (rule fold_preserves[where Q = "\<lambda>s'. board_ok (snd s') \<and>
         cand_sum (snd s') \<le> cand_sum b \<and> unknown_count (snd s') \<le> unknown_count b"])
    show "board_ok (snd (False, b)) \<and> cand_sum (snd (False, b)) \<le> cand_sum b \<and>
          unknown_count (snd (False, b)) \<le> unknown_count b"
      using assms(2) by simp
  next
    fix g and s' :: "bool \<times> board"
    assume "g \<in> set groups"
      and "board_ok (snd s') \<and> cand_sum (snd s') \<le> cand_sum b \<and>
           unknown_count (snd s') \<le> unknown_count b"
    then show "board_ok (snd (hidden_group iter g s')) \<and>
           cand_sum (snd (hidden_group iter g s')) \<le> cand_sum b \<and>
           unknown_count (snd (hidden_group iter g s')) \<le> unknown_count b"
      using hidden_group_measure[OF assms(1), of s' g] by auto
  qed
  then show "board_ok (snd (hidden_single iter b))"
    and "cand_sum (snd (hidden_single iter b)) \<le> cand_sum b"
    and "unknown_count (snd (hidden_single iter b)) \<le> unknown_count b"
    by simp_all
qed

lemma propagate_step_measure:
  assumes "iter_sound iter" and "board_ok (snd s)"
  shows "board_ok (snd (propagate_step iter s))"
    and "unknown_count (snd (propagate_step iter s)) \<le> unknown_count (snd s)"
    and "fst s \<Longrightarrow> mu (propagate_step iter s) < mu s"
proof -
  let ?n = "naked_single (snd s)"
  let ?h = "hidden_single iter (snd ?n)"
  note n = naked_single_measure[OF assms(2)]
  note h = hidden_single_measure[OF assms(1) n(1)]
  have st: "propagate_step iter s = (fst ?n, snd ?h)" by (simp add: propagate_step_def Let_def)
  show "board_ok (snd (propagate_step iter s))" using h(1) st by simp
  show "unknown_count (snd (propagate_step iter s)) \<le> unknown_count (snd s)"
    using h(3) n(3) st by simp
  show "mu (propagate_step iter s) < mu s" if "fst s"
    using that h(2) n(2) st by (auto simp: mu_def split: if_splits)
qed

lemma propagate_terminates:
  assumes "iter_sound iter" and "board_ok b"
  shows "\<exists>b'. propagate iter b = Some b' \<and> board_ok b' \<and> unknown_count b' \<le> unknown_count b"
proof -
  have "\<exists>t. while_option fst (propagate_step iter) (True, b) = Some t"
  proof (rule measure_while_option_Some[where P = "\<lambda>s. board_ok (snd s)" and f = mu])
    show "board_ok (snd (True, b))" using assms(2) by simp
  next
    fix s assume "board_ok (snd s)" "fst s"
    then show "board_ok (snd (propagate_step iter s)) \<and> mu (propagate_step iter s) < mu s"
      using propagate_step_measure[OF assms(1)] by blast
  qed
  then obtain t where w: "while_option fst (propagate_step iter) (True, b) = Some t" by blast
  have "board_ok (snd t) \<and> unknown_count (snd t) \<le> unknown_count b"
  proof (rule while_option_rule[where P = "\<lambda>s. board_ok (snd s) \<and> unknown_count (snd s) \<le> unknown_count b", OF _ w])
    show "board_ok (snd (True, b)) \<and> unknown_count (snd (True, b)) \<le> unknown_count b"
      using assms(2) by simp
  next
    fix s assume "board_ok (snd s) \<and> unknown_count (snd s) \<le> unknown_count b" "fst s"
    then show "board_ok (snd (propagate_step iter s)) \<and>
               unknown_count (snd (propagate_step iter s)) \<le> unknown_count b"
      using propagate_step_measure(1,2)[OF assms(1), of s] by auto
  qed
  then show ?thesis using w by (simp add: propagate_def)
qed

lemma unknown_row: "sum_list (map (\<lambda>t. if value t = UNKNOWN then 1 else 0) r)
    = length (filter (\<lambda>v. v = UNKNOWN) (map (\<lambda>t. value t) r))"
  by (induction r) auto

lemma unknown_count_as_list:
  "unknown_count b = sum_list (map (\<lambda>r. length (filter (\<lambda>v. v = UNKNOWN) r)) (as_list b))"
  by (simp add: unknown_count_def total_def as_list_def unknown_row comp_def)

lemma unknown_count_cong: "as_list b = as_list b' \<Longrightarrow> unknown_count b = unknown_count b'"
  by (simp add: unknown_count_as_list)

lemma min_choice_unknown:
  assumes "\<not> is_complete b"
  shows "\<exists>t. min_choice_tile b = Some t \<and> t \<in> set (concat groups) \<and> value (tile_at b t) = UNKNOWN"
proof -
  from assms have "\<not> (\<forall>p\<in>set (concat groups). value (tile_at b p) \<noteq> UNKNOWN)"
    by (simp add: is_complete_iff)
  with min_choice_fold[of "concat groups" b] obtain i where
    i: "i < length (concat groups)"
    "fold (min_choice_step b) (concat groups) (None, None)
       = (Some (card (candidates (tile_at b (concat groups ! i)))), Some (concat groups ! i))"
    "value (tile_at b (concat groups ! i)) = UNKNOWN"
    by (auto simp del: set_concat)
  have "concat groups ! i \<in> set (concat groups)" using i(1) by (rule nth_mem)
  then show ?thesis using i(2,3) by (simp add: min_choice_tile_concat del: set_concat)
qed

lemma concat_groups_in_grid:
  "t \<in> set (concat groups) \<Longrightarrow> fst t < NROWS \<and> snd t < NCOLS"
proof -
  assume "t \<in> set (concat groups)"
  then obtain g where "g \<in> set groups" "t \<in> set g" by auto
  then show ?thesis by (rule groups_in_grid)
qed

lemma unknown_count_pos:
  assumes "well_shaped b" and "fst t < NROWS" and "snd t < NCOLS" and "value (tile_at b t) = UNKNOWN"
  shows "1 \<le> unknown_count b"
proof -
  have "in_range b t" using assms(1-3) by (rule well_shaped_in_range)
  from total_ge[OF this, of "\<lambda>t. if value t = UNKNOWN then 1 else 0"] assms(4)
  show ?thesis by (simp add: unknown_count_def)
qed

lemma guess_decreases:
  assumes "well_shaped b" and "fst t < NROWS" and "snd t < NCOLS"
    and "value (tile_at b t) = UNKNOWN" and "v \<in> set CHOICES"
  shows "unknown_count (update_tile b t (set_value v (tile_at b t))) + 1 = unknown_count b"
proof -
  have ir: "in_range b t" using assms(1-3) by (rule well_shaped_in_range)
  have "value (set_value v (tile_at b t)) \<noteq> UNKNOWN"
    using assms(5) UNKNOWN_notin_CHOICES by (auto simp: set_value_def)
  then show ?thesis
    using total_update[OF ir, of "\<lambda>t. if value t = UNKNOWN then 1 else 0" "set_value v (tile_at b t)"]
      assms(4) by (simp add: unknown_count_def)
qed

lemma restore:
  assumes "well_shaped b" and "list_all (list_all tile_wf) b" and "well_shaped b1"
  shows "\<exists>b2. set_tiles (as_list b) b1 = Inr b2 \<and> well_shaped b2 \<and> as_list b2 = as_list b"
proof -
  have f: "NROWS \<le> length (as_list b)" "\<forall>r<NROWS. NCOLS \<le> length (as_list b ! r)"
    using fits_as_list[OF assms(1)] by (auto simp: fits_def list_all_length)
  from set_tiles_ok[OF assms(3) f] obtain b2 where
    b2: "set_tiles (as_list b) b1 = Inr b2" "well_shaped b2"
    "\<forall>r<NROWS. \<forall>c<NCOLS. tile_at b2 (r, c) = set_value (as_list b ! r ! c) (tile_at b1 (r, c))"
    by blast
  have "as_list b2 = as_list b"
  proof (rule as_list_eqI[OF b2(2) assms(1)])
    fix r c assume rc: "r < NROWS" "c < NCOLS"
    have "tile_wf (tile_at b (r, c))" using assms(2) rc all_tiles_iff[OF assms(1)] by blast
    then show "value (tile_at b2 (r, c)) = value (tile_at b (r, c))"
      using b2(3) rc as_list_nth[OF assms(1) rc] by (auto simp: set_value_def tile_wf_def)
  qed
  then show ?thesis using b2(1,2) by blast
qed

lemma board_ok_parts:
  "board_ok b \<Longrightarrow> well_shaped b" "board_ok b \<Longrightarrow> list_all (list_all tile_wf) b"
  "board_ok b \<Longrightarrow> board_inv b"
  by (simp_all add: board_ok_def)

lemma guess_loop_terminates:
  assumes IH: "\<And>b. board_ok b \<Longrightarrow> unknown_count b \<le> k \<Longrightarrow>
                 \<exists>r b'. solve iter (Suc k) b = Some (Inr (r, b'))"
    and t: "fst t < NROWS" "snd t < NCOLS"
    and vs: "set vs \<subseteq> set CHOICES"
    and b: "board_ok b" "as_list b = saved" "value (tile_at b t) = UNKNOWN" "unknown_count b \<le> Suc k"
  shows "\<exists>r b'. guess_loop iter (Suc k) saved t vs b = Some (Inr (r, b'))"
  using vs b
proof (induction vs arbitrary: b)
  case Nil
  show ?case by auto
next
  case (Cons v vs)
  let ?b0 = "update_tile b t (set_value v (tile_at b t))"
  have ok0: "board_ok ?b0" using Cons.prems(2) by (rule stable_set_value[OF stable_board_ok])
  have "unknown_count ?b0 + 1 = unknown_count b"
    using Cons.prems t by (intro guess_decreases) (auto simp: board_ok_def)
  then have "unknown_count ?b0 \<le> k" using Cons.prems(5) by simp
  from IH[OF ok0 this] obtain r1 b1 where s: "solve iter (Suc k) ?b0 = Some (Inr (r1, b1))"
    by blast
  have ok1: "board_ok b1" using stable_solve_guess_loop(1)[OF stable_board_ok ok0 s] .
  show ?case
  proof (cases r1)
    case True
    then show ?thesis using s by auto
  next
    case False
    from restore[OF board_ok_parts(1,2)[OF Cons.prems(2)] board_ok_parts(1)[OF ok1]]
    obtain b2 where b2: "set_tiles saved b1 = Inr b2" "well_shaped b2" "as_list b2 = saved"
      using Cons.prems(3) by auto
    have ok2: "board_ok b2" using stable_set_tiles[OF stable_board_ok ok1 b2(1)] .
    have "value (tile_at b2 t) = value (tile_at b t)"
      using as_list_nth[OF b2(2) t] as_list_nth[OF board_ok_parts(1)[OF Cons.prems(2)] t]
        b2(3) Cons.prems(3) by simp
    then have u2: "value (tile_at b2 t) = UNKNOWN" using Cons.prems(4) by simp
    have "unknown_count b2 = unknown_count b"
      using b2(3) Cons.prems(3) by (intro unknown_count_cong) simp
    then have c2: "unknown_count b2 \<le> Suc k" using Cons.prems(5) by simp
    have "\<exists>r b'. guess_loop iter (Suc k) saved t vs b2 = Some (Inr (r, b'))"
      using Cons.IH[OF _ ok2 b2(3) u2 c2] Cons.prems(1) by simp
    then show ?thesis using s False b2(1) by auto
  qed
qed

lemma solve_terminates:
  assumes "iter_sound iter" and "board_ok b" and "unknown_count b \<le> k"
  shows "\<exists>r b'. solve iter (Suc k) b = Some (Inr (r, b'))"
  using assms(2,3)
proof (induction k arbitrary: b)
  case 0
  from propagate_terminates[OF assms(1) "0.prems"(1)] obtain b1 where
    b1: "propagate iter b = Some b1" "board_ok b1" "unknown_count b1 \<le> unknown_count b" by blast
  have "is_complete b1"
  proof (rule ccontr)
    assume "\<not> is_complete b1"
    from min_choice_unknown[OF this] obtain t where
      "t \<in> set (concat groups)" "value (tile_at b1 t) = UNKNOWN" by blast
    then have "1 \<le> unknown_count b1"
      using concat_groups_in_grid[of t] board_ok_parts(1)[OF b1(2)]
      by (intro unknown_count_pos) auto
    then show False using b1(3) "0.prems"(2) by simp
  qed
  then show ?case using b1(1) by auto
next
  case (Suc k)
  from propagate_terminates[OF assms(1) Suc.prems(1)] obtain b1 where
    b1: "propagate iter b = Some b1" "board_ok b1" "unknown_count b1 \<le> unknown_count b" by blast
  show ?case
  proof (cases "is_complete b1 \<or> \<not> is_consistent b1")
    case True
    then show ?thesis using b1(1) by auto
  next
    case False
    then have nc: "\<not> is_complete b1" and co: "is_consistent b1" by simp_all
    from min_choice_unknown[OF nc] obtain t where
      t: "min_choice_tile b1 = Some t" "t \<in> set (concat groups)" "value (tile_at b1 t) = UNKNOWN"
      by blast
    have tg: "fst t < NROWS" "snd t < NCOLS" using concat_groups_in_grid[OF t(2)] by simp_all
    have "in_range b1 t" using board_ok_parts(1)[OF b1(2)] tg by (rule well_shaped_in_range)
    then have "tile_inv (tile_at b1 t)" using board_ok_tile(1)[OF b1(2)] by simp
    then have "candidates (tile_at b1 t) \<subseteq> set CHOICES" using t(3) by (simp add: tile_inv_def)
    then have vs: "set (iter (candidates (tile_at b1 t))) \<subseteq> set CHOICES"
      using assms(1) by (auto simp: iter_sound_def)
    have c1: "unknown_count b1 \<le> Suc k" using b1(3) Suc.prems(2) by simp
    have "\<exists>r b'. guess_loop iter (Suc k) (as_list b1) t (iter (candidates (tile_at b1 t))) b1
            = Some (Inr (r, b'))"
      by (rule guess_loop_terminates[OF Suc.IH tg vs b1(2) refl t(3) c1])
    then show ?thesis using b1(1) nc co t(1) by (auto simp: Let_def)
  qed
qed

section \<open>Failed search, completions and the concrete boards\<close>

lemma tile_ok_new_tile: "tile_inv (new_tile r c v)" "tile_wf (new_tile r c v)"
  by (simp_all add: new_tile_def tile_inv_set_value tile_wf_set_value)

lemma board_ok_tiles_of: "board_ok (tiles_of vs)"
  by (simp add: board_ok_def well_shaped_tiles_of board_inv_def
      all_tiles_iff[OF well_shaped_tiles_of] tile_at_tiles_of tile_ok_new_tile)

lemma guess_loop_False:
  assumes "well_shaped b0" and "list_all (list_all tile_wf) b0"
    and "well_shaped b" and "as_list b = as_list b0"
    and "guess_loop iter n (as_list b0) t vs b = Some (Inr (False, b'))"
  shows "as_list b' = as_list b0"
  using assms(3-5)
proof (induction vs arbitrary: b)
  case Nil
  then show ?case by simp
next
  case (Cons v vs)
  let ?b1 = "update_tile b t (set_value v (tile_at b t))"
  have w1: "well_shaped ?b1" using Cons.prems(1) by (simp add: well_shaped_update)
  from Cons.prems(3) obtain r1 b2 where s: "solve iter n ?b1 = Some (Inr (r1, b2))"
    by (auto split: option.splits sum.splits)
  have w2: "well_shaped b2" using stable_solve_guess_loop(1)[OF stable_well_shaped w1 s] .
  have nr: "\<not> r1" using Cons.prems(3) s by (auto split: if_splits)
  from restore[OF assms(1,2) w2] obtain b3 where
    b3: "set_tiles (as_list b0) b2 = Inr b3" "well_shaped b3" "as_list b3 = as_list b0" by blast
  have "guess_loop iter n (as_list b0) t vs b3 = Some (Inr (False, b'))"
    using Cons.prems(3) s nr b3(1) by simp
  then show ?case using Cons.IH[OF b3(2,3)] by simp
qed

lemma propagate_X1: "propagate ascending (tiles_of X1) = Some (tiles_of X1_out)"
  by code_simp

lemma complete_X1_out: "is_complete (tiles_of X1_out)"
  by code_simp

lemma solve_X1: "solve ascending (Suc 0) (tiles_of X1) = Some (Inr (True, tiles_of X1_out))"
  by (simp add: propagate_X1 complete_X1_out)

lemma solve_X6: "solve ascending (Suc 0) (tiles_of X6) = Some (Inr (False, X6_final))"
  by code_simp

lemma valid_in_choices:
  "valid_completion f \<Longrightarrow> g \<in> set groups \<Longrightarrow> p \<in> set g \<Longrightarrow> f p \<in> set CHOICES"
  by (auto simp: valid_completion_def list_all_iff)

lemma valid_once:
  "valid_completion f \<Longrightarrow> g \<in> set groups \<Longrightarrow> v \<in> set CHOICES \<Longrightarrow>
   length (filter (\<lambda>p. f p = v) g) = 1"
  by (auto simp: valid_completion_def list_all_iff)

lemma valid_surj:
  assumes "valid_completion f" and "g \<in> set groups" and "v \<in> set CHOICES"
  shows "\<exists>q\<in>set g. f q = v"
proof -
  have "filter (\<lambda>p. f p = v) g \<noteq> []" using valid_once[OF assms] by auto
  then show ?thesis by (auto simp: filter_empty_conv)
qed

lemma valid_inj:
  assumes "valid_completion f" and "g \<in> set groups" and "p \<in> set g" and "q \<in> set g"
    and "f p = f q"
  shows "p = q"
proof (rule ccontr)
  assume ne: "p \<noteq> q"
  let ?xs = "filter (\<lambda>x. f x = f p) g"
  have "{p, q} \<subseteq> set ?xs" using assms(3-5) by auto
  then have "card {p, q} \<le> card (set ?xs)" by (intro card_mono) simp_all
  moreover have "card (set ?xs) \<le> length ?xs" by (rule card_length)
  moreover have "card {p, q} = 2" using ne by simp
  moreover have "length ?xs = 1"
    using valid_once[OF assms(1,2)] valid_in_choices[OF assms(1,2,3)] by simp
  ultimately show False by simp
qed

lemma agreesD:
  "agrees f b \<Longrightarrow> g \<in> set groups \<Longrightarrow> p \<in> set g \<Longrightarrow>
   value (tile_at b p) = UNKNOWN \<or> value (tile_at b p) = f p"
  by (auto simp: agrees_def list_all_iff)

lemma forced_value:
  assumes "valid_completion f" and "agrees f b" and "g \<in> set groups" and "v \<in> set CHOICES"
    and "\<forall>p\<in>set g. p \<noteq> q \<longrightarrow> value (tile_at b p) \<noteq> UNKNOWN \<and> value (tile_at b p) \<noteq> v"
  shows "f q = v"
proof -
  from valid_surj[OF assms(1,3,4)] obtain p where p: "p \<in> set g" "f p = v" by blast
  have "p = q"
  proof (rule ccontr)
    assume "p \<noteq> q"
    then have "value (tile_at b p) \<noteq> UNKNOWN" "value (tile_at b p) \<noteq> v"
      using assms(5) p(1) by auto
    then show False using agreesD[OF assms(2,3) p(1)] p(2) by auto
  qed
  then show ?thesis using p(2) by simp
qed

lemma length_groups: "length groups = 27"
  by code_simp

lemma X1_block_1:
  "\<forall>p\<in>set (groups ! 1). p \<noteq> (0, 3) \<longrightarrow>
     value (tile_at (tiles_of X1) p) \<noteq> UNKNOWN \<and> value (tile_at (tiles_of X1) p) \<noteq> CHR ''7''"
  by code_simp

lemma X1_block_2:
  "\<forall>p\<in>set (groups ! 2). p \<noteq> (0, 6) \<longrightarrow>
     value (tile_at (tiles_of X1) p) \<noteq> UNKNOWN \<and> value (tile_at (tiles_of X1) p) \<noteq> CHR ''7''"
  by code_simp

lemma X1_row_0: "(0, 3) \<in> set (groups ! 9) \<and> (0, 6) \<in> set (groups ! 9)"
  by code_simp

lemma X1_unsolvable: "\<not> (valid_completion f \<and> agrees f (tiles_of X1))"
proof
  assume a: "valid_completion f \<and> agrees f (tiles_of X1)"
  have g: "groups ! 1 \<in> set groups" "groups ! 2 \<in> set groups" "groups ! 9 \<in> set groups"
    by (simp_all add: length_groups)
  have c: "CHR ''7'' \<in> set CHOICES" by (simp add: CHOICES_def)
  have "f (0, 3) = CHR ''7''"
    using forced_value[OF _ _ g(1) c X1_block_1] a by simp
  moreover have "f (0, 6) = CHR ''7''"
    using forced_value[OF _ _ g(2) c X1_block_2] a by simp
  ultimately have "f (0, 3) = f (0, 6)" by simp
  from valid_inj[OF _ g(3) _ _ this] X1_row_0 a have "((0, 3) :: pos) = (0, 6)" by blast
  then show False by simp
qed

lemma fits_X1: "fits X1"
  by code_simp

section \<open>Propagation and search keep a completion\<close>

lemma admitsD: "admits b f \<Longrightarrow> g \<in> set groups \<Longrightarrow> p \<in> set g \<Longrightarrow> f p \<in> candidates (tile_at b p)"
  by (auto simp: admits_def list_all_iff)

lemma admitsI:
  "(\<And>g p. g \<in> set groups \<Longrightarrow> p \<in> set g \<Longrightarrow> f p \<in> candidates (tile_at b p)) \<Longrightarrow> admits b f"
  by (auto simp: admits_def list_all_iff)

lemma agreesI:
  "(\<And>g p. g \<in> set groups \<Longrightarrow> p \<in> set g \<Longrightarrow>
      value (tile_at b p) = UNKNOWN \<or> value (tile_at b p) = f p) \<Longrightarrow> agrees f b"
  by (auto simp: agrees_def list_all_iff)

lemma fresh_set_value: "fresh (set_value v t)"
  using UNKNOWN_notin_CHOICES by (auto simp: fresh_def tile_wf_def set_value_def)

lemma known_value:
  assumes "board_ok b" and "admits b f" and "g \<in> set groups" and "p \<in> set g"
    and "value (tile_at b p) \<noteq> UNKNOWN"
  shows "value (tile_at b p) = f p"
proof -
  have ir: "in_range b p" using assms(1,3,4) by (auto intro: groups_in_range simp: board_ok_def)
  have "tile_wf (tile_at b p)" "tile_inv (tile_at b p)" using board_ok_tile[OF assms(1) ir] by simp_all
  then have "candidates (tile_at b p) = {value (tile_at b p)}"
    using assms(5) by (auto simp: tile_wf_def tile_inv_def)
  then show ?thesis using admitsD[OF assms(2,3,4)] by simp
qed

lemma admits_agrees: "board_ok b \<Longrightarrow> admits b f \<Longrightarrow> agrees f b"
  by (rule agreesI) (metis known_value)

lemma admits_fresh:
  assumes "well_shaped b" and "list_all (list_all fresh) b"
    and "valid_completion f" and "agrees f b"
  shows "admits b f"
proof (rule admitsI)
  fix g p assume gp: "g \<in> set groups" "p \<in> set g"
  have ir: "in_range b p" using assms(1) gp by (rule groups_in_range)
  then have fr: "fresh (tile_at b p)" using assms(2) by (simp add: in_range_tile)
  have c: "f p \<in> set CHOICES" using valid_in_choices[OF assms(3) gp] .
  show "f p \<in> candidates (tile_at b p)"
  proof (cases "value (tile_at b p) \<in> set CHOICES")
    case True
    then have "value (tile_at b p) \<noteq> UNKNOWN" using UNKNOWN_notin_CHOICES by auto
    then have "value (tile_at b p) = f p" using agreesD[OF assms(4) gp] by simp
    then show ?thesis using fr True by (simp add: fresh_def)
  next
    case False
    then show ?thesis using fr c by (simp add: fresh_def)
  qed
qed

lemma admits_update:
  assumes "admits b f" and "in_range b p \<Longrightarrow> f p \<in> candidates t"
  shows "admits (update_tile b p t) f"
proof (rule admitsI)
  fix g q assume gq: "g \<in> set groups" "q \<in> set g"
  show "f q \<in> candidates (tile_at (update_tile b p t) q)"
  proof (cases "q = p")
    case False
    then show ?thesis using admitsD[OF assms(1) gq] by (simp add: tile_at_update_other)
  next
    case True
    show ?thesis
    proof (cases "in_range b p")
      case True
      then show ?thesis using assms(2) \<open>q = p\<close> by (simp add: tile_at_update_same)
    next
      case False
      then show ?thesis using admitsD[OF assms(1) gq] by (simp add: update_tile_out)
    qed
  qed
qed

lemma naked_tile_admits:
  assumes v: "valid_completion f" and g: "g \<in> set groups" and p: "p \<in> set g"
    and ok: "board_ok (snd s)" and ad: "admits (snd s) f"
    and us: "\<forall>q\<in>set g. f q \<in> used \<longrightarrow> value (tile_at (snd s) q) = f q"
  shows "admits (snd (naked_tile used p s)) f"
    and "\<forall>q\<in>set g. f q \<in> used \<longrightarrow> value (tile_at (snd (naked_tile used p s)) q) = f q"
proof -
  let ?b = "snd s" and ?t = "tile_at (snd s) p"
  let ?t' = "snd (remove_candidates used ?t)"
  have ir: "in_range ?b p" using ok g p by (auto intro: groups_in_range simp: board_ok_def)
  have fc: "f p \<in> set CHOICES" using valid_in_choices[OF v g p] .
  show "admits (snd (naked_tile used p s)) f"
  proof (cases "value ?t = UNKNOWN")
    case False
    then show ?thesis using ad by (simp add: naked_tile_def)
  next
    case True
    have nu: "f p \<notin> used"
    proof
      assume "f p \<in> used"
      then have "value ?t = f p" using us p by blast
      then show False using True fc UNKNOWN_notin_CHOICES by auto
    qed
    have sub: "candidates ?t \<subseteq> set CHOICES"
      using board_ok_tile(1)[OF ok ir] True by (simp add: tile_inv_def)
    have in_diff: "f p \<in> candidates ?t - used" using admitsD[OF ad g p] nu by simp
    have "f p \<in> candidates ?t'"
    proof (cases "candidates ?t - used = candidates ?t")
      case True
      then show ?thesis using in_diff by (simp add: remove_candidates_def)
    next
      case False
      then show ?thesis using remove_candidates_changed[OF sub False] in_diff by simp
    qed
    then have "admits (update_tile ?b p ?t') f" using ad by (intro admits_update) simp_all
    then show ?thesis using True by (simp add: naked_tile_def Let_def)
  qed
  show "\<forall>q\<in>set g. f q \<in> used \<longrightarrow> value (tile_at (snd (naked_tile used p s)) q) = f q"
  proof (intro ballI impI)
    fix q assume q: "q \<in> set g" "f q \<in> used"
    then have vq: "value (tile_at ?b q) = f q" using us by blast
    show "value (tile_at (snd (naked_tile used p s)) q) = f q"
    proof (cases "value ?t = UNKNOWN")
      case False
      then show ?thesis using vq by (simp add: naked_tile_def)
    next
      case True
      have "q \<noteq> p"
      proof
        assume "q = p"
        then have "f p = UNKNOWN" using vq True by simp
        then show False using fc UNKNOWN_notin_CHOICES by auto
      qed
      then show ?thesis using vq True by (simp add: naked_tile_def Let_def tile_at_update_other)
    qed
  qed
qed

lemma used_values_known:
  assumes v: "valid_completion f" and g: "g \<in> set groups"
    and ok: "board_ok b" and ad: "admits b f"
  shows "\<forall>q\<in>set g. f q \<in> set (group_values b g) \<longrightarrow> value (tile_at b q) = f q"
proof (intro ballI impI)
  fix q assume q: "q \<in> set g" "f q \<in> set (group_values b g)"
  then obtain q' where q': "q' \<in> set g" "value (tile_at b q') = f q" "value (tile_at b q') \<noteq> UNKNOWN"
    by (auto simp: group_values_def)
  have "value (tile_at b q') = f q'" using known_value[OF ok ad g q'(1) q'(3)] .
  then have "f q' = f q" using q'(2) by simp
  then have "q' = q" using valid_inj[OF v g q'(1) q(1)] by simp
  then show "value (tile_at b q) = f q" using q'(2) by simp
qed

lemma naked_group_admits:
  assumes v: "valid_completion f" and g: "g \<in> set groups"
    and ok: "board_ok (snd s)" and ad: "admits (snd s) f"
  shows "board_ok (snd (naked_group g s)) \<and> admits (snd (naked_group g s)) f"
proof -
  let ?u = "set (group_values (snd s) g)"
  have "board_ok (snd (naked_group g s)) \<and> admits (snd (naked_group g s)) f \<and>
        (\<forall>q\<in>set g. f q \<in> ?u \<longrightarrow> value (tile_at (snd (naked_group g s)) q) = f q)"
    unfolding naked_group_def
  proof (rule fold_preserves[where Q = "\<lambda>s'. board_ok (snd s') \<and> admits (snd s') f \<and>
        (\<forall>q\<in>set g. f q \<in> ?u \<longrightarrow> value (tile_at (snd s') q) = f q)"])
    show "board_ok (snd s) \<and> admits (snd s) f \<and>
        (\<forall>q\<in>set g. f q \<in> ?u \<longrightarrow> value (tile_at (snd s) q) = f q)"
      using ok ad used_values_known[OF v g ok ad] by simp
  next
    fix p and s' :: "bool \<times> board"
    assume p: "p \<in> set g"
      and a: "board_ok (snd s') \<and> admits (snd s') f \<and>
        (\<forall>q\<in>set g. f q \<in> ?u \<longrightarrow> value (tile_at (snd s') q) = f q)"
    from a have a1: "board_ok (snd s')" and a2: "admits (snd s') f"
      and a3: "\<forall>q\<in>set g. f q \<in> ?u \<longrightarrow> value (tile_at (snd s') q) = f q" by simp_all
    show "board_ok (snd (naked_tile ?u p s')) \<and> admits (snd (naked_tile ?u p s')) f \<and>
        (\<forall>q\<in>set g. f q \<in> ?u \<longrightarrow> value (tile_at (snd (naked_tile ?u p s')) q) = f q)"
      using naked_tile_admits[OF v g p a1 a2 a3] naked_tile_ok[OF a1] by simp
  qed
  then show ?thesis by simp
qed

lemma naked_single_admits:
  assumes "valid_completion f" and "board_ok b" and "admits b f"
  shows "admits (snd (naked_single b)) f"
proof -
  have "board_ok (snd (naked_single b)) \<and> admits (snd (naked_single b)) f"
    unfolding naked_single_def
  proof (rule fold_preserves[where Q = "\<lambda>s'. board_ok (snd s') \<and> admits (snd s') f"])
    show "board_ok (snd (False, b)) \<and> admits (snd (False, b)) f" using assms by simp
  next
    fix g and s' :: "bool \<times> board"
    assume "g \<in> set groups" "board_ok (snd s') \<and> admits (snd s') f"
    then show "board_ok (snd (naked_group g s')) \<and> admits (snd (naked_group g s')) f"
      using naked_group_admits[OF assms(1)] by blast
  qed
  then show ?thesis by simp
qed

lemma hidden_value_admits:
  assumes v: "valid_completion f" and g: "g \<in> set groups" and ad: "admits (snd s) f"
  shows "admits (snd (hidden_value g v s)) f"
proof -
  let ?b = "snd s"
  let ?ps = "filter (\<lambda>p. v \<in> candidates (tile_at ?b p)) g"
  show ?thesis
  proof (cases "length ?ps = 1")
    case False
    then show ?thesis using ad by (simp add: hidden_value_def)
  next
    case True
    then have one: "set ?ps = {?ps ! 0}"
      by (cases ?ps) auto
    then have q0: "?ps ! 0 \<in> set g" by (metis filter_is_subset insertI1 subsetD)
    have "f (?ps ! 0) \<in> candidates (set_value v (tile_at ?b (?ps ! 0)))"
    proof (cases "v \<in> set CHOICES")
      case False
      then show ?thesis using valid_in_choices[OF assms(1) g q0] by (simp add: set_value_def)
    next
      case c: True
      from valid_surj[OF assms(1) g c] obtain q where q: "q \<in> set g" "f q = v" by blast
      then have "v \<in> candidates (tile_at ?b q)" using admitsD[OF ad g q(1)] by simp
      then have "q \<in> set ?ps" using q(1) by simp
      then have "q = ?ps ! 0" using one by blast
      then show ?thesis using q(2) c by (simp add: set_value_def)
    qed
    then have "admits (update_tile ?b (?ps ! 0) (set_value v (tile_at ?b (?ps ! 0)))) f"
      using ad by (intro admits_update) simp_all
    then show ?thesis using True by (simp add: hidden_value_def Let_def)
  qed
qed

lemma hidden_single_admits:
  assumes "valid_completion f" and "admits b f"
  shows "admits (snd (hidden_single iter b)) f"
  unfolding hidden_single_def
proof (rule fold_preserves[where Q = "\<lambda>s'. admits (snd s') f"])
  show "admits (snd (False, b)) f" using assms(2) by simp
next
  fix g and s' :: "bool \<times> board"
  assume g: "g \<in> set groups" and a: "admits (snd s') f"
  show "admits (snd (hidden_group iter g s')) f"
    unfolding hidden_group_def
    by (rule fold_preserves[where Q = "\<lambda>s'. admits (snd s') f"])
       (auto intro: hidden_value_admits[OF assms(1) g] a)
qed

lemma propagate_admits:
  assumes "valid_completion f" and "board_ok b" and "admits b f"
    and "propagate iter b = Some b'"
  shows "admits b' f"
proof -
  from assms(4) obtain pr where w: "while_option fst (propagate_step iter) (True, b) = Some (pr, b')"
    by (auto dest: propagate_SomeD)
  have "board_ok (snd (pr, b')) \<and> admits (snd (pr, b')) f"
  proof (rule while_option_rule[where P = "\<lambda>s. board_ok (snd s) \<and> admits (snd s) f", OF _ w])
    show "board_ok (snd (True, b)) \<and> admits (snd (True, b)) f" using assms(2,3) by simp
  next
    fix s :: "bool \<times> board"
    assume a: "board_ok (snd s) \<and> admits (snd s) f" and "fst s"
    have n: "board_ok (snd (naked_single (snd s)))" "admits (snd (naked_single (snd s))) f"
      using a stable_naked_single[OF stable_board_ok] naked_single_admits[OF assms(1)] by simp_all
    then show "board_ok (snd (propagate_step iter s)) \<and> admits (snd (propagate_step iter s)) f"
      using stable_hidden_single[OF stable_board_ok] hidden_single_admits[OF assms(1)]
      by (simp add: propagate_step_def Let_def)
  qed
  then show ?thesis by simp
qed

lemma groups_distinct_eval: "list_all distinct groups"
  by code_simp

lemma groups_distinct: "g \<in> set groups \<Longrightarrow> distinct g"
  using groups_distinct_eval by (simp add: list_all_iff)

lemma admits_consistent:
  assumes "valid_completion f" and "board_ok b" and "admits b f"
  shows "is_consistent b"
  unfolding is_consistent_def list_all_iff
proof
  fix g assume g: "g \<in> set groups"
  let ?k = "filter (\<lambda>p. value (tile_at b p) \<noteq> UNKNOWN) g"
  have "group_values b g = map (\<lambda>p. value (tile_at b p)) ?k"
    by (simp add: group_values_def filter_map comp_def)
  also have "\<dots> = map f ?k"
    using known_value[OF assms(2,3) g] by (intro map_cong) auto
  finally have e: "group_values b g = map f ?k" .
  have "inj_on f (set ?k)"
    using valid_inj[OF assms(1) g] by (intro inj_onI) auto
  then have "distinct (map f ?k)"
    using groups_distinct[OF g] by (simp add: distinct_map)
  then have "card (set (map f ?k)) = length (map f ?k)" by (rule distinct_card)
  then show "length (group_values b g) = card (set (group_values b g))"
    unfolding e by (rule sym)
qed

lemma stable_fresh_writes:
  "list_all (list_all fresh) b \<Longrightarrow> list_all (list_all fresh) (update_tile b p (set_value v (tile_at b p)))"
  by (rule list_all2_update) (simp_all add: fresh_set_value)

lemma set_tiles_fresh:
  assumes "list_all (list_all fresh) b" and "set_tiles vs b = Inr b'"
  shows "list_all (list_all fresh) b'"
proof -
  have cell: "list_all (list_all fresh) s'"
    if "list_all (list_all fresh) s" "set_tile vs r c s = Inr s'" for r c s s'
    using that by (auto simp: set_tile_def stable_fresh_writes split: if_splits)
  have row: "list_all (list_all fresh) s'"
    if "list_all (list_all fresh) s" "for_each (set_tile vs r) [0..<NCOLS] s = Inr s'" for r s s'
    using that(1) that(2)
      for_each_preserves[where Q = "\<lambda>s. list_all (list_all fresh) s" and f = "set_tile vs r"] cell
    by blast
  show ?thesis
    using assms(2) unfolding set_tiles_def
    by (rule for_each_preserves[where Q = "\<lambda>s. list_all (list_all fresh) s", rotated 2])
       (auto intro: row assms(1))
qed

lemma fresh_Board: "list_all (list_all fresh) Board"
  by (simp add: all_tiles_iff[OF well_shaped_Board] tile_at_Board new_tile_def fresh_set_value)

lemma board_ok_Board: "board_ok Board"
  by (simp add: board_ok_def well_shaped_Board board_inv_def
      all_tiles_iff[OF well_shaped_Board] tile_at_Board tile_ok_new_tile)

lemma agrees_cong:
  assumes "well_shaped b" and "well_shaped b'" and "as_list b' = as_list b" and "agrees f b"
  shows "agrees f b'"
proof (rule agreesI)
  fix g p assume gp: "g \<in> set groups" "p \<in> set g"
  have p: "fst p < NROWS" "snd p < NCOLS" using groups_in_grid[OF gp] by simp_all
  have "value (tile_at b' p) = value (tile_at b p)"
    using as_list_nth[OF assms(1) p] as_list_nth[OF assms(2) p] assms(3) by simp
  then show "value (tile_at b' p) = UNKNOWN \<or> value (tile_at b' p) = f p"
    using agreesD[OF assms(4) gp] by simp
qed

lemma guess_loop_complete:
  assumes v: "valid_completion f" and it: "iter_sound iter"
    and IH: "\<And>b. board_ok b \<Longrightarrow> admits b f \<Longrightarrow> unknown_count b \<le> k \<Longrightarrow>
                 \<exists>b'. solve iter (Suc k) b = Some (Inr (True, b'))"
    and t: "t \<in> set (concat groups)"
    and vs: "set vs \<subseteq> set CHOICES" "f t \<in> set vs"
    and b: "board_ok b" "admits b f" "as_list b = saved" "value (tile_at b t) = UNKNOWN"
           "unknown_count b \<le> Suc k"
  shows "\<exists>b'. guess_loop iter (Suc k) saved t vs b = Some (Inr (True, b'))"
  using vs b
proof (induction vs arbitrary: b)
  case Nil
  then show ?case by simp
next
  case (Cons x vs)
  have tg: "fst t < NROWS" "snd t < NCOLS" using concat_groups_in_grid[OF t] by simp_all
  from t obtain g where g: "g \<in> set groups" "t \<in> set g" by auto
  let ?b0 = "update_tile b t (set_value x (tile_at b t))"
  have ok0: "board_ok ?b0" using Cons.prems(3) by (rule stable_set_value[OF stable_board_ok])
  have "unknown_count ?b0 + 1 = unknown_count b"
    using Cons.prems tg by (intro guess_decreases) (auto simp: board_ok_def)
  then have c0: "unknown_count ?b0 \<le> k" using Cons.prems(7) by simp
  show ?case
  proof (cases "x = f t")
    case True
    have "f t \<in> candidates (set_value x (tile_at b t))"
      using True Cons.prems(1) by (simp add: set_value_def)
    then have "admits ?b0 f" using Cons.prems(4) by (intro admits_update) simp_all
    from IH[OF ok0 this c0] obtain b' where "solve iter (Suc k) ?b0 = Some (Inr (True, b'))"
      by blast
    then show ?thesis by auto
  next
    case False
    from solve_terminates[OF it ok0 c0] obtain r1 b1 where
      s: "solve iter (Suc k) ?b0 = Some (Inr (r1, b1))" by blast
    have ok1: "board_ok b1" using stable_solve_guess_loop(1)[OF stable_board_ok ok0 s] .
    show ?thesis
    proof (cases r1)
      case True
      then show ?thesis using s by auto
    next
      case nr: False
      from restore[OF board_ok_parts(1,2)[OF Cons.prems(3)] board_ok_parts(1)[OF ok1]]
      obtain b2 where b2: "set_tiles saved b1 = Inr b2" "well_shaped b2" "as_list b2 = saved"
        using Cons.prems(5) by auto
      have ok2: "board_ok b2" using stable_set_tiles[OF stable_board_ok ok1 b2(1)] .
      have fits: "fits saved" using fits_as_list[OF board_ok_parts(1)[OF Cons.prems(3)]]
        Cons.prems(5) by simp
      have fr2: "list_all (list_all fresh) b2"
      proof -
        have f: "NROWS \<le> length saved" "\<forall>r<NROWS. NCOLS \<le> length (saved ! r)"
          using fits by (auto simp: fits_def list_all_length)
        from set_tiles_ok[OF board_ok_parts(1)[OF ok1] f] b2(1) have
          "\<forall>r<NROWS. \<forall>c<NCOLS. tile_at b2 (r, c) = set_value (saved ! r ! c) (tile_at b1 (r, c))"
          by auto
        then show ?thesis by (simp add: all_tiles_iff[OF b2(2)] fresh_set_value)
      qed
      have ag2: "agrees f b2"
        using agrees_cong[OF board_ok_parts(1)[OF Cons.prems(3)] b2(2)]
          b2(3) Cons.prems(5) admits_agrees[OF Cons.prems(3,4)] by simp
      have ad2: "admits b2 f" using admits_fresh[OF b2(2) fr2 v ag2] .
      have "value (tile_at b2 t) = value (tile_at b t)"
        using as_list_nth[OF b2(2) tg] as_list_nth[OF board_ok_parts(1)[OF Cons.prems(3)] tg]
          b2(3) Cons.prems(5) by simp
      then have u2: "value (tile_at b2 t) = UNKNOWN" using Cons.prems(6) by simp
      have "unknown_count b2 = unknown_count b"
        using b2(3) Cons.prems(5) by (intro unknown_count_cong) simp
      then have c2: "unknown_count b2 \<le> Suc k" using Cons.prems(7) by simp
      have "f t \<in> set vs" using Cons.prems(2) False by auto
      then have "\<exists>b'. guess_loop iter (Suc k) saved t vs b2 = Some (Inr (True, b'))"
        using Cons.IH[OF _ _ ok2 ad2 b2(3) u2 c2] Cons.prems(1) by simp
      then show ?thesis using s nr b2(1) by auto
    qed
  qed
qed

lemma solve_complete:
  assumes v: "valid_completion f" and it: "iter_exact iter"
    and "board_ok b" and "admits b f" and "unknown_count b \<le> k"
  shows "\<exists>b'. solve iter (Suc k) b = Some (Inr (True, b'))"
  using assms(3-5)
proof (induction k arbitrary: b)
  case 0
  have its: "iter_sound iter" using it by (simp add: iter_sound_def iter_exact_def)
  from solve_terminates[OF its "0.prems"(1,3)] obtain r b' where
    s: "solve iter (Suc 0) b = Some (Inr (r, b'))" by blast
  from propagate_terminates[OF its "0.prems"(1)] obtain b1 where
    b1: "propagate iter b = Some b1" "board_ok b1" "unknown_count b1 \<le> unknown_count b" by blast
  have "is_complete b1"
  proof (rule ccontr)
    assume "\<not> is_complete b1"
    from min_choice_unknown[OF this] obtain t where
      "t \<in> set (concat groups)" "value (tile_at b1 t) = UNKNOWN" by blast
    then have "1 \<le> unknown_count b1"
      using concat_groups_in_grid[of t] board_ok_parts(1)[OF b1(2)]
      by (intro unknown_count_pos) auto
    then show False using b1(3) "0.prems"(3) by simp
  qed
  then show ?case using b1(1) by auto
next
  case (Suc k)
  have its: "iter_sound iter" using it by (simp add: iter_sound_def iter_exact_def)
  from propagate_terminates[OF its Suc.prems(1)] obtain b1 where
    b1: "propagate iter b = Some b1" "board_ok b1" "unknown_count b1 \<le> unknown_count b" by blast
  have ad1: "admits b1 f" using propagate_admits[OF v Suc.prems(1,2) b1(1)] .
  have co: "is_consistent b1" using admits_consistent[OF v b1(2) ad1] .
  show ?case
  proof (cases "is_complete b1")
    case True
    then show ?thesis using b1(1) by auto
  next
    case nc: False
    from min_choice_unknown[OF nc] obtain t where
      t: "min_choice_tile b1 = Some t" "t \<in> set (concat groups)" "value (tile_at b1 t) = UNKNOWN"
      by blast
    from t(2) obtain g where g: "g \<in> set groups" "t \<in> set g" by auto
    have tg: "fst t < NROWS" "snd t < NCOLS" using concat_groups_in_grid[OF t(2)] by simp_all
    have "in_range b1 t" using board_ok_parts(1)[OF b1(2)] tg by (rule well_shaped_in_range)
    then have "tile_inv (tile_at b1 t)" using board_ok_tile(1)[OF b1(2)] by simp
    then have sub: "candidates (tile_at b1 t) \<subseteq> set CHOICES" using t(3) by (simp add: tile_inv_def)
    have e: "set (iter (candidates (tile_at b1 t))) = candidates (tile_at b1 t)"
      using it by (simp add: iter_exact_def)
    have vs: "set (iter (candidates (tile_at b1 t))) \<subseteq> set CHOICES" using sub e by simp
    have ft: "f t \<in> set (iter (candidates (tile_at b1 t)))" using admitsD[OF ad1 g] e by simp
    have c1: "unknown_count b1 \<le> Suc k" using b1(3) Suc.prems(3) by simp
    have "\<exists>b'. guess_loop iter (Suc k) (as_list b1) t (iter (candidates (tile_at b1 t))) b1
            = Some (Inr (True, b'))"
      by (rule guess_loop_complete[OF v its Suc.IH t(2) vs ft b1(2) ad1 refl t(3) c1])
    then show ?thesis using b1(1) nc co t(1) by (auto simp: Let_def)
  qed
qed

lemma propagate_step_cand_sum:
  assumes "iter_sound iter" and "board_ok (snd s)"
  shows "cand_sum (snd (propagate_step iter s)) \<le> cand_sum (snd s)"
    and "fst (naked_single (snd s)) \<Longrightarrow> cand_sum (snd (propagate_step iter s)) < cand_sum (snd s)"
proof -
  note n = naked_single_measure[OF assms(2)]
  note h = hidden_single_measure[OF assms(1) n(1)]
  show "cand_sum (snd (propagate_step iter s)) \<le> cand_sum (snd s)"
    using n(2) h(2) by (simp add: propagate_step_def Let_def split: if_splits)
  show "cand_sum (snd (propagate_step iter s)) < cand_sum (snd s)" if "fst (naked_single (snd s))"
    using that n(2) h(2) by (simp add: propagate_step_def Let_def split: if_splits)
qed

lemma progress_changes_grid:
  assumes it: "iter_sound iter" and ok: "board_ok b" and pr: "fst (naked_single b)"
    and p: "propagate iter b = Some b'"
  shows "cand_sum b' < cand_sum b"
proof -
  let ?s1 = "propagate_step iter (True, b)"
  from p obtain f where w: "while_option fst (propagate_step iter) (True, b) = Some (f, b')"
    by (auto dest: propagate_SomeD)
  then have w1: "while_option fst (propagate_step iter) ?s1 = Some (f, b')"
    by (subst (asm) while_option_unfold) simp
  have ok1: "board_ok (snd ?s1)" using propagate_step_measure(1)[OF it, of "(True, b)"] ok by simp
  have lt: "cand_sum (snd ?s1) < cand_sum b"
    using propagate_step_cand_sum(2)[OF it, of "(True, b)"] ok pr by simp
  have "board_ok (snd (f, b')) \<and> cand_sum (snd (f, b')) \<le> cand_sum (snd ?s1)"
  proof (rule while_option_rule[where P = "\<lambda>s. board_ok (snd s) \<and> cand_sum (snd s) \<le> cand_sum (snd ?s1)", OF _ w1])
    show "board_ok (snd ?s1) \<and> cand_sum (snd ?s1) \<le> cand_sum (snd ?s1)" using ok1 by simp
  next
    fix s :: "bool \<times> board"
    assume a: "board_ok (snd s) \<and> cand_sum (snd s) \<le> cand_sum (snd ?s1)" and "fst s"
    then show "board_ok (snd (propagate_step iter s)) \<and>
               cand_sum (snd (propagate_step iter s)) \<le> cand_sum (snd ?s1)"
      using propagate_step_measure(1)[OF it, of s] propagate_step_cand_sum(1)[OF it, of s]
      by auto
  qed
  then show ?thesis using lt by simp
qed

lemma iter_sound_ascending: "iter_sound ascending"
  by (simp add: iter_sound_def ascending_def)

lemma iter_exact_ascending: "set (ascending S) = S"
  by (simp add: ascending_def)

lemma prune_ok:
  "board_ok b \<Longrightarrow> value (tile_at b p) = UNKNOWN \<Longrightarrow> board_ok (prune p used b)"
  unfolding prune_def by (rule stable_remove_candidates[OF stable_board_ok])

lemma G3_unknown:
  "value (tile_at (tiles_of G3) (0, 1)) = UNKNOWN"
  "value (tile_at (prune (0, 1) {CHR ''1''} (tiles_of G3)) (0, 2)) = UNKNOWN"
  by code_simp+

lemma board_ok_Z: "board_ok Z"
  unfolding Z_def
  by (intro stable_naked_single[OF stable_board_ok] prune_ok board_ok_tiles_of G3_unknown)

lemma propagate_Z:
  "\<not> fst (naked_single Z) \<and>
   (case propagate ascending Z of None \<Rightarrow> False | Some b1 \<Rightarrow> fst (naked_single b1))"
  by code_simp

lemma fits_puzzle: "fits puzzle"
  by code_simp

lemma valid_solution: "valid_completion solution"
  by code_simp

lemma agrees_puzzle: "agrees solution (tiles_of puzzle)"
  by code_simp

section \<open>The claims\<close>

text \<open>
  C8. For every tile and every set of used values, \<^verbatim>\<open>remove_candidates\<close> returns
  False and leaves the tile as it is when no candidate is among the used values.
  Otherwise it returns True and sets the candidates to the difference, and when exactly
  one candidate is left it calls \<^verbatim>\<open>set_value\<close> with it; on a tile whose candidates
  are drawn from CHOICES (as \<^verbatim>\<open>set_value\<close> and \<^verbatim>\<open>remove_candidates\<close> leave
  them) the candidates are then the difference and the remaining symbol is the value.
  When the difference is empty an UNKNOWN tile stays UNKNOWN with no candidate. The
  function is total: no branch raises.
\<close>

theorem remove_candidates_contract:
  "(candidates t - used = candidates t \<longrightarrow> remove_candidates used t = (False, t)) \<and>
   (candidates t - used \<noteq> candidates t \<longrightarrow>
      fst (remove_candidates used t) \<and>
      snd (remove_candidates used t) =
        (if card (candidates t - used) = 1
         then set_value (the_elem (candidates t - used)) (t\<lparr>candidates := candidates t - used\<rparr>)
         else t\<lparr>candidates := candidates t - used\<rparr>) \<and>
      (candidates t \<subseteq> set CHOICES \<longrightarrow>
         candidates (snd (remove_candidates used t)) = candidates t - used \<and>
         (card (candidates t - used) = 1 \<longrightarrow>
            value (snd (remove_candidates used t)) = the_elem (candidates t - used)))) \<and>
   (candidates t - used = {} \<and> value t = UNKNOWN \<longrightarrow>
      value (snd (remove_candidates used t)) = UNKNOWN \<and>
      candidates (snd (remove_candidates used t)) = {})"
proof (intro conjI impI)
  show "remove_candidates used t = (False, t)" if "candidates t - used = candidates t"
    using that by (simp add: remove_candidates_def)
  show "fst (remove_candidates used t)" if "candidates t - used \<noteq> candidates t"
    using that by (simp add: remove_candidates_def Let_def)
  show "snd (remove_candidates used t) =
        (if card (candidates t - used) = 1
         then set_value (the_elem (candidates t - used)) (t\<lparr>candidates := candidates t - used\<rparr>)
         else t\<lparr>candidates := candidates t - used\<rparr>)" if "candidates t - used \<noteq> candidates t"
    using that by (simp add: remove_candidates_def Let_def)
  have promoted: "the_elem (candidates t - used) \<in> set CHOICES \<and>
      candidates t - used = {the_elem (candidates t - used)}"
    if "candidates t \<subseteq> set CHOICES" "card (candidates t - used) = 1"
    using that card_1_the_elem[of "candidates t - used"] by auto
  show "candidates (snd (remove_candidates used t)) = candidates t - used"
    if "candidates t - used \<noteq> candidates t" "candidates t \<subseteq> set CHOICES"
    using that promoted by (auto simp: remove_candidates_def Let_def set_value_def)
  show "value (snd (remove_candidates used t)) = the_elem (candidates t - used)"
    if "candidates t - used \<noteq> candidates t" "candidates t \<subseteq> set CHOICES"
      "card (candidates t - used) = 1"
    using that promoted by (auto simp: remove_candidates_def Let_def set_value_def)
  show "value (snd (remove_candidates used t)) = UNKNOWN"
    if "candidates t - used = {} \<and> value t = UNKNOWN"
  proof -
    from that have d: "candidates t - used = {}" and u: "value t = UNKNOWN" by simp_all
    show ?thesis by (cases "candidates t = {}") (simp_all add: remove_candidates_def Let_def d u)
  qed
  show "candidates (snd (remove_candidates used t)) = {}"
    if "candidates t - used = {} \<and> value t = UNKNOWN"
  proof -
    from that have d: "candidates t - used = {}" by simp
    show ?thesis by (cases "candidates t = {}") (simp_all add: remove_candidates_def Let_def d)
  qed
qed

theorem remove_candidates_contract_witness:
  "candidates (new_tile 0 0 UNKNOWN) - set ''23456789'' \<noteq> candidates (new_tile 0 0 UNKNOWN) \<and>
   candidates (new_tile 0 0 UNKNOWN) \<subseteq> set CHOICES \<and>
   card (candidates (new_tile 0 0 UNKNOWN) - set ''23456789'') = 1 \<and>
   fst (remove_candidates (set ''23456789'') (new_tile 0 0 UNKNOWN)) \<and>
   candidates (snd (remove_candidates (set ''23456789'') (new_tile 0 0 UNKNOWN)))
     = candidates (new_tile 0 0 UNKNOWN) - set ''23456789'' \<and>
   value (snd (remove_candidates (set ''23456789'') (new_tile 0 0 UNKNOWN))) = CHR ''1'' \<and>
   candidates (new_tile 0 0 UNKNOWN) - set CHOICES = {} \<and>
   value (new_tile 0 0 UNKNOWN) = UNKNOWN \<and>
   value (snd (remove_candidates (set CHOICES) (new_tile 0 0 UNKNOWN))) = UNKNOWN \<and>
   candidates (snd (remove_candidates (set CHOICES) (new_tile 0 0 UNKNOWN))) = {}"
proof -
  have h1: "candidates (new_tile 0 0 UNKNOWN) - set ''23456789'' \<noteq> candidates (new_tile 0 0 UNKNOWN)"
    by code_simp
  have h2: "candidates (new_tile 0 0 UNKNOWN) \<subseteq> set CHOICES"
    by code_simp
  have h3: "card (candidates (new_tile 0 0 UNKNOWN) - set ''23456789'') = 1"
    by code_simp
  have h4: "the_elem (candidates (new_tile 0 0 UNKNOWN) - set ''23456789'') = CHR ''1''"
    by code_simp
  have h5: "candidates (new_tile 0 0 UNKNOWN) - set CHOICES = {}"
    by code_simp
  have h6: "value (new_tile 0 0 UNKNOWN) = UNKNOWN"
    by code_simp
  note a = remove_candidates_contract [of "new_tile 0 0 UNKNOWN" "set ''23456789''"]
  note b = remove_candidates_contract [of "new_tile 0 0 UNKNOWN" "set CHOICES"]
  have c1: "fst (remove_candidates (set ''23456789'') (new_tile 0 0 UNKNOWN))"
    using a h1 by blast
  have c2: "candidates (snd (remove_candidates (set ''23456789'') (new_tile 0 0 UNKNOWN)))
     = candidates (new_tile 0 0 UNKNOWN) - set ''23456789''"
    using a h1 h2 by blast
  have c3: "value (snd (remove_candidates (set ''23456789'') (new_tile 0 0 UNKNOWN))) = CHR ''1''"
    using a h1 h2 h3 h4 by metis
  have c4: "value (snd (remove_candidates (set CHOICES) (new_tile 0 0 UNKNOWN))) = UNKNOWN"
    using b h5 h6 by blast
  have c5: "candidates (snd (remove_candidates (set CHOICES) (new_tile 0 0 UNKNOWN))) = {}"
    using b h5 h6 by blast
  show ?thesis
    using h1 h2 h3 h5 h6 c1 c2 c3 c4 c5 by (intro conjI)
qed

text \<open>
  C9. \<^verbatim>\<open>set_value\<close> with any token outside CHOICES, not only the placeholder, makes
  the tile UNKNOWN with all of CHOICES as candidates; so \<^verbatim>\<open>set_tiles\<close>, on an input
  of the grid's size, returns normally and turns every malformed symbol into an UNKNOWN
  tile.
\<close>

theorem malformed_symbols_become_unknown:
  "(v \<notin> set CHOICES \<longrightarrow> set_value v t = t\<lparr>value := UNKNOWN, candidates := set CHOICES\<rparr>) \<and>
   (well_shaped b \<and> fits tile_values \<longrightarrow>
      (\<exists>b'. set_tiles tile_values b = Inr b' \<and>
         (\<forall>r<NROWS. \<forall>c<NCOLS. tile_values ! r ! c \<notin> set CHOICES \<longrightarrow>
            value (tile_at b' (r, c)) = UNKNOWN \<and>
            candidates (tile_at b' (r, c)) = set CHOICES)))"
proof (intro conjI impI)
  show "set_value v t = t\<lparr>value := UNKNOWN, candidates := set CHOICES\<rparr>" if "v \<notin> set CHOICES"
    using that by (simp add: set_value_def)
  assume a: "well_shaped b \<and> fits tile_values"
  then have "NROWS \<le> length tile_values" "\<forall>r<NROWS. NCOLS \<le> length (tile_values ! r)"
    by (auto simp: fits_def list_all_length)
  with a obtain b' where b': "set_tiles tile_values b = Inr b'"
    "\<forall>r<NROWS. \<forall>c<NCOLS. tile_at b' (r, c) = set_value (tile_values ! r ! c) (tile_at b (r, c))"
    using set_tiles_ok[of b tile_values] by blast
  show "\<exists>b'. set_tiles tile_values b = Inr b' \<and>
         (\<forall>r<NROWS. \<forall>c<NCOLS. tile_values ! r ! c \<notin> set CHOICES \<longrightarrow>
            value (tile_at b' (r, c)) = UNKNOWN \<and>
            candidates (tile_at b' (r, c)) = set CHOICES)"
    using b' by (intro exI[of _ b']) (simp add: set_value_def)
qed

theorem malformed_symbols_become_unknown_witness:
  "CHR ''x'' \<notin> set CHOICES \<and> well_shaped Board \<and> fits malformed \<and>
   set_value (CHR ''x'') (new_tile 0 0 (CHR ''5''))
     = (new_tile 0 0 (CHR ''5''))\<lparr>value := UNKNOWN, candidates := set CHOICES\<rparr> \<and>
   (\<exists>b'. set_tiles malformed Board = Inr b' \<and>
      value (tile_at b' (0, 2)) = UNKNOWN \<and> candidates (tile_at b' (0, 2)) = set CHOICES)"
proof -
  have h1: "CHR ''x'' \<notin> set CHOICES"
    by code_simp
  have h2: "well_shaped Board"
    by code_simp
  have h3: "fits malformed"
    by code_simp
  have h4: "(0::nat) < NROWS" "(2::nat) < NCOLS" "malformed ! 0 ! 2 \<notin> set CHOICES"
    by code_simp+
  show ?thesis
    using h1 h2 h3 h4
      malformed_symbols_become_unknown [of "CHR ''x''" "new_tile 0 0 (CHR ''5'')" Board malformed]
    by blast
qed

text \<open>
  C10. On a grid with no UNKNOWN tile \<^verbatim>\<open>min_choice_tile\<close> returns None and raises
  nothing. Otherwise it returns an UNKNOWN tile of the enumeration (the blocks, then the
  rows, then the columns) whose number of candidates is strictly smaller than that of
  every UNKNOWN tile met before it, and not larger than that of any UNKNOWN tile at all:
  the first tile with the fewest candidates.
\<close>

theorem min_choice_tile_spec:
  "(is_complete b \<longrightarrow> min_choice_tile b = None) \<and>
   (\<not> is_complete b \<longrightarrow>
      (\<exists>i<length (concat groups).
          min_choice_tile b = Some (concat groups ! i) \<and>
          value (tile_at b (concat groups ! i)) = UNKNOWN \<and>
          (\<forall>j<i. value (tile_at b (concat groups ! j)) = UNKNOWN \<longrightarrow>
             card (candidates (tile_at b (concat groups ! i)))
               < card (candidates (tile_at b (concat groups ! j)))) \<and>
          (\<forall>j<length (concat groups). value (tile_at b (concat groups ! j)) = UNKNOWN \<longrightarrow>
             card (candidates (tile_at b (concat groups ! i)))
               \<le> card (candidates (tile_at b (concat groups ! j))))))"
proof (cases "is_complete b")
  case True
  then show ?thesis
    using min_choice_fold[of "concat groups" b]
    by (simp add: min_choice_tile_concat is_complete_iff)
next
  case False
  then have "\<not> (\<forall>p\<in>set (concat groups). value (tile_at b p) \<noteq> UNKNOWN)"
    by (simp add: is_complete_iff)
  with min_choice_fold[of "concat groups" b] obtain i where
    "i < length (concat groups)"
    "fold (min_choice_step b) (concat groups) (None, None)
       = (Some (card (candidates (tile_at b (concat groups ! i)))), Some (concat groups ! i))"
    "value (tile_at b (concat groups ! i)) = UNKNOWN"
    "\<forall>j<i. value (tile_at b (concat groups ! j)) = UNKNOWN \<longrightarrow>
       card (candidates (tile_at b (concat groups ! i)))
         < card (candidates (tile_at b (concat groups ! j)))"
    "\<forall>j<length (concat groups). value (tile_at b (concat groups ! j)) = UNKNOWN \<longrightarrow>
       card (candidates (tile_at b (concat groups ! i)))
         \<le> card (candidates (tile_at b (concat groups ! j)))"
    by (auto simp del: set_concat)
  then show ?thesis using False
    by (intro conjI impI exI[of _ i]) (simp_all add: min_choice_tile_concat)
qed

theorem min_choice_tile_spec_witness:
  "is_complete (tiles_of solved) \<and> min_choice_tile (tiles_of solved) = None \<and>
   \<not> is_complete Board \<and>
   (\<exists>i<length (concat groups).
      min_choice_tile Board = Some (concat groups ! i) \<and>
      value (tile_at Board (concat groups ! i)) = UNKNOWN)"
proof -
  have h1: "is_complete (tiles_of solved)"
    by code_simp
  have h2: "\<not> is_complete Board"
    by code_simp
  show ?thesis
    using h1 h2 min_choice_tile_spec [of "tiles_of solved"] min_choice_tile_spec [of Board]
    by blast
qed

text \<open>
  C5, as the code has it. The claim that \<^verbatim>\<open>set_tiles(as_list())\<close> leaves values and
  candidate sets as they were fails: \<^verbatim>\<open>as_list\<close> saves the values only, and
  \<^verbatim>\<open>set_tiles\<close> rebuilds every candidate set from the value. Here an UNKNOWN tile
  that has lost the candidate "1" gets it back.
\<close>

theorem removed_candidates_come_back:
  "board_inv pruned_board \<and> set_tiles (as_list pruned_board) pruned_board \<noteq> Inr pruned_board"
  by code_simp

text \<open>
  C5, amended. On every board \<^verbatim>\<open>set_tiles(as_list())\<close> returns normally and sets each
  tile to \<^verbatim>\<open>set_value\<close> of its own value: the values are unchanged (they are UNKNOWN
  or symbols of CHOICES), a known tile has its value as only candidate, an UNKNOWN tile
  has all of CHOICES. The grid is unchanged exactly when every tile was already in that
  state.
\<close>

theorem snapshot_round_trip:
  "well_shaped b \<longrightarrow>
     (\<exists>b'. set_tiles (as_list b) b = Inr b' \<and>
        (\<forall>r<NROWS. \<forall>c<NCOLS.
           tile_at b' (r, c) = set_value (value (tile_at b (r, c))) (tile_at b (r, c))) \<and>
        (list_all (list_all tile_wf) b \<longrightarrow> as_list b' = as_list b) \<and>
        (b' = b) = list_all (list_all fresh) b)"
proof
  assume ws: "well_shaped b"
  have f: "NROWS \<le> length (as_list b)" "\<forall>r<NROWS. NCOLS \<le> length (as_list b ! r)"
    using fits_as_list[OF ws] by (auto simp: fits_def list_all_length)
  from set_tiles_ok[OF ws f] obtain b' where
    b': "set_tiles (as_list b) b = Inr b'" "well_shaped b'"
    "\<forall>r<NROWS. \<forall>c<NCOLS. tile_at b' (r, c) = set_value (as_list b ! r ! c) (tile_at b (r, c))"
    by blast
  have t: "tile_at b' (r, c) = set_value (value (tile_at b (r, c))) (tile_at b (r, c))"
    if "r < NROWS" "c < NCOLS" for r c
    using b'(3) that as_list_nth[OF ws that] by simp
  have v: "as_list b' = as_list b" if "list_all (list_all tile_wf) b"
  proof (rule as_list_eqI[OF b'(2) ws])
    fix r c assume rc: "r < NROWS" "c < NCOLS"
    then have "tile_wf (tile_at b (r, c))" using that all_tiles_iff[OF ws] by blast
    then show "value (tile_at b' (r, c)) = value (tile_at b (r, c))"
      using t[OF rc] by (simp add: value_set_value_wf)
  qed
  have e: "(b' = b) = list_all (list_all fresh) b"
  proof
    assume "b' = b"
    then have "set_value (value (tile_at b (r, c))) (tile_at b (r, c)) = tile_at b (r, c)"
      if "r < NROWS" "c < NCOLS" for r c using t[OF that] by simp
    then show "list_all (list_all fresh) b"
      by (simp add: all_tiles_iff[OF ws] fresh_iff)
  next
    assume "list_all (list_all fresh) b"
    then have "tile_at b' (r, c) = tile_at b (r, c)" if "r < NROWS" "c < NCOLS" for r c
      using t[OF that] that by (simp add: all_tiles_iff[OF ws] fresh_iff)
    then show "b' = b" by (rule board_ext[OF b'(2) ws])
  qed
  show "\<exists>b'. set_tiles (as_list b) b = Inr b' \<and>
        (\<forall>r<NROWS. \<forall>c<NCOLS.
           tile_at b' (r, c) = set_value (value (tile_at b (r, c))) (tile_at b (r, c))) \<and>
        (list_all (list_all tile_wf) b \<longrightarrow> as_list b' = as_list b) \<and>
        (b' = b) = list_all (list_all fresh) b"
    using b'(1) t v e by blast
qed

theorem snapshot_round_trip_witness:
  "well_shaped pruned_board \<and> list_all (list_all tile_wf) pruned_board \<and>
   \<not> list_all (list_all fresh) pruned_board \<and>
   (\<exists>b'. set_tiles (as_list pruned_board) pruned_board = Inr b' \<and>
      as_list b' = as_list pruned_board \<and> b' \<noteq> pruned_board)"
proof -
  have h1: "well_shaped pruned_board"
    by code_simp
  have h2: "list_all (list_all tile_wf) pruned_board"
    by code_simp
  have h3: "\<not> list_all (list_all fresh) pruned_board"
    by code_simp
  show ?thesis
    using h1 h2 h3 snapshot_round_trip [of pruned_board] by blast
qed

text \<open>
  C1, at a failing input. Soundness asks that a grid for which \<^verbatim>\<open>solve\<close> returns True
  is complete and consistent. \<^verbatim>\<open>solve\<close> returns True as soon as the grid is complete
  and asks \<^verbatim>\<open>is_consistent\<close> only of an incomplete grid. On the board \<open>X1\<close>, whose
  givens are consistent, one pass of \<^verbatim>\<open>naked_single\<close> fills the three open tiles from
  their blocks, and \<^verbatim>\<open>solve\<close> returns True on a grid with two 7s in the first row.
\<close>

theorem solve_accepts_inconsistent_grid:
  "set_tiles X1 Board = Inr (tiles_of X1) \<and> is_consistent (tiles_of X1) \<and>
   solve ascending (Suc 0) (tiles_of X1) = Some (Inr (True, tiles_of X1_out)) \<and>
   is_complete (tiles_of X1_out) \<and> \<not> is_consistent (tiles_of X1_out)"
proof -
  have "is_consistent (tiles_of X1)"
    by code_simp
  moreover have "\<not> is_consistent (tiles_of X1_out)"
    by code_simp
  ultimately show ?thesis
    using solve_X1 complete_X1_out set_tiles_Board[OF fits_X1] by simp
qed

text \<open>
  C3, at a failing input. The board \<open>X1\<close> has no valid completion (its second and
  third block both need their 7 in the first row), and \<^verbatim>\<open>solve\<close> returns True on it.
  That \<^verbatim>\<open>solve\<close> terminates on every board is the lemma \<open>solve_terminates\<close>.
\<close>

theorem unsolvable_board_reported_solved:
  "set_tiles X1 Board = Inr (tiles_of X1) \<and>
   (\<forall>f. \<not> (valid_completion f \<and> agrees f (tiles_of X1))) \<and>
   solve ascending (Suc 0) (tiles_of X1) = Some (Inr (True, tiles_of X1_out))"
  using X1_unsolvable solve_X1 set_tiles_Board[OF fits_X1] by simp

text \<open>
  C6, as the code has it. The claim that a failed \<^verbatim>\<open>solve\<close> leaves the grid as it was
  on entry fails: \<^verbatim>\<open>solve\<close> propagates before it takes its snapshot and restores
  nothing when it gives up at the consistency check. On the board \<open>X6\<close> it returns
  False and leaves two more tiles filled and the first tile without candidates.
\<close>

theorem failed_solve_changes_grid:
  "set_tiles X6 Board = Inr (tiles_of X6) \<and>
   solve ascending (Suc 0) (tiles_of X6) = Some (Inr (False, X6_final)) \<and>
   as_list X6_final \<noteq> as_list (tiles_of X6) \<and> X6_final \<noteq> tiles_of X6"
proof -
  have "fits X6"
    by code_simp
  then have "set_tiles X6 Board = Inr (tiles_of X6)"
    by (rule set_tiles_Board)
  moreover have "as_list X6_final \<noteq> as_list (tiles_of X6)"
    by code_simp
  ultimately show ?thesis using solve_X6 by auto
qed

text \<open>
  C6, amended. When \<^verbatim>\<open>solve\<close> returns False on a board, the values of the tiles
  afterwards are the values the grid had right after the \<^verbatim>\<open>propagate\<close> call that
  opens \<^verbatim>\<open>solve\<close>: \<^verbatim>\<open>as_list\<close> gives the same rows.
\<close>

theorem failed_solve_keeps_propagated_values:
  "board_ok b \<and> solve iter n b = Some (Inr (False, b')) \<longrightarrow>
     (\<exists>b1. propagate iter b = Some b1 \<and> as_list b' = as_list b1)"
proof
  assume a: "board_ok b \<and> solve iter n b = Some (Inr (False, b'))"
  then obtain m where n: "n = Suc m" by (cases n) auto
  from a n obtain b1 where p: "propagate iter b = Some b1"
    by (auto split: option.splits)
  have ok1: "board_ok b1" using stable_propagate[OF stable_board_ok _ p] a by simp
  have "as_list b' = as_list b1"
  proof (cases "is_complete b1")
    case True
    then show ?thesis using a n p by simp
  next
    case nc: False
    show ?thesis
    proof (cases "is_consistent b1")
      case False
      then show ?thesis using a n p nc by simp
    next
      case True
      from a n p nc True obtain tg where
        g: "guess_loop iter m (as_list b1) tg (iter (candidates (tile_at b1 tg))) b1
              = Some (Inr (False, b'))"
        by (auto split: option.splits simp: Let_def)
      show ?thesis
        by (rule guess_loop_False[OF board_ok_parts(1,2)[OF ok1] board_ok_parts(1)[OF ok1] refl g])
    qed
  qed
  then show "\<exists>b1. propagate iter b = Some b1 \<and> as_list b' = as_list b1" using p by blast
qed

theorem failed_solve_keeps_propagated_values_witness:
  "board_ok (tiles_of X6) \<and>
   solve ascending (Suc 0) (tiles_of X6) = Some (Inr (False, X6_final)) \<and>
   (\<exists>b1. propagate ascending (tiles_of X6) = Some b1 \<and> as_list X6_final = as_list b1)"
  using board_ok_tiles_of [of X6] solve_X6
    failed_solve_keeps_propagated_values [of "tiles_of X6" ascending "Suc 0" X6_final]
  by blast

text \<open>
  C7, as the code has it. The claim that every public operation keeps the invariant of
  a tile fails for \<^verbatim>\<open>remove_candidates\<close> on a known tile whose value is among the
  used values: the tile keeps its value and loses its only candidate.
\<close>

theorem known_tile_loses_candidate:
  "tile_inv (new_tile 0 0 (CHR ''1'')) \<and>
   \<not> tile_inv (snd (remove_candidates {CHR ''1''} (new_tile 0 0 (CHR ''1''))))"
  by code_simp

text \<open>
  C7, amended. \<^verbatim>\<open>set_value\<close> establishes the invariant of a tile;
  \<^verbatim>\<open>remove_candidates\<close> keeps it on a tile that is UNKNOWN (the only tiles the board
  calls it on) or whose value is not among the used values; and \<^verbatim>\<open>set_tiles\<close>,
  \<^verbatim>\<open>naked_single\<close>, \<^verbatim>\<open>hidden_single\<close>, \<^verbatim>\<open>propagate\<close> and \<^verbatim>\<open>solve\<close> keep it on
  every tile of the board.
\<close>

theorem cell_invariant_preserved:
  "tile_inv (set_value v t) \<and>
   (tile_inv t \<and> (value t = UNKNOWN \<or> value t \<notin> used) \<longrightarrow>
      tile_inv (snd (remove_candidates used t))) \<and>
   (board_inv b \<and> set_tiles tile_values b = Inr b1 \<longrightarrow> board_inv b1) \<and>
   (board_inv b \<longrightarrow> board_inv (snd (naked_single b))) \<and>
   (board_inv b \<longrightarrow> board_inv (snd (hidden_single iter b))) \<and>
   (board_inv b \<and> propagate iter b = Some b2 \<longrightarrow> board_inv b2) \<and>
   (board_inv b \<and> solve iter n b = Some (Inr (r, b3)) \<longrightarrow> board_inv b3)"
proof (intro conjI impI)
  show "tile_inv (set_value v t)"
    by (rule tile_inv_set_value)
  show "tile_inv (snd (remove_candidates used t))"
    if "tile_inv t \<and> (value t = UNKNOWN \<or> value t \<notin> used)"
    using that UNKNOWN_notin_CHOICES by (intro tile_inv_remove_candidates) auto
  show "board_inv b1" if "board_inv b \<and> set_tiles tile_values b = Inr b1"
    using that stable_set_tiles[OF stable_board_inv] by blast
  show "board_inv (snd (naked_single b))" if "board_inv b"
    using that by (rule stable_naked_single[OF stable_board_inv])
  show "board_inv (snd (hidden_single iter b))" if "board_inv b"
    using that by (rule stable_hidden_single[OF stable_board_inv])
  show "board_inv b2" if "board_inv b \<and> propagate iter b = Some b2"
    using that stable_propagate[OF stable_board_inv] by blast
  show "board_inv b3" if "board_inv b \<and> solve iter n b = Some (Inr (r, b3))"
    using that stable_solve_guess_loop(1)[OF stable_board_inv] by blast
qed

theorem cell_invariant_preserved_witness:
  "tile_inv (new_tile 0 0 UNKNOWN) \<and> value (new_tile 0 0 UNKNOWN) = UNKNOWN \<and>
   tile_inv (set_value (CHR ''5'') (new_tile 0 0 UNKNOWN)) \<and>
   tile_inv (snd (remove_candidates {CHR ''1''} (new_tile 0 0 UNKNOWN))) \<and>
   board_inv Board \<and> set_tiles X1 Board = Inr (tiles_of X1) \<and> board_inv (tiles_of X1) \<and>
   board_inv (snd (naked_single (tiles_of X1))) \<and>
   board_inv (snd (hidden_single ascending (tiles_of X1))) \<and>
   propagate ascending (tiles_of X1) = Some (tiles_of X1_out) \<and>
   solve ascending (Suc 0) (tiles_of X1) = Some (Inr (True, tiles_of X1_out)) \<and>
   board_inv (tiles_of X1_out)"
proof -
  have h1: "tile_inv (new_tile 0 0 UNKNOWN)" "value (new_tile 0 0 UNKNOWN) = UNKNOWN"
    by code_simp+
  have h2: "board_inv Board"
    by code_simp
  have h3: "set_tiles X1 Board = Inr (tiles_of X1)"
    using fits_X1 by (rule set_tiles_Board)
  note a = cell_invariant_preserved
    [of "CHR ''5''" "new_tile 0 0 UNKNOWN" "{CHR ''1''}" Board X1 "tiles_of X1" ascending]
  note b = cell_invariant_preserved
    [of "CHR ''5''" "new_tile 0 0 UNKNOWN" "{CHR ''1''}" "tiles_of X1" X1 "tiles_of X1" ascending
       "tiles_of X1_out" "Suc 0" True "tiles_of X1_out"]
  have c1: "tile_inv (set_value (CHR ''5'') (new_tile 0 0 UNKNOWN))" using a by blast
  have c2: "tile_inv (snd (remove_candidates {CHR ''1''} (new_tile 0 0 UNKNOWN)))"
    using a h1 by blast
  have c3: "board_inv (tiles_of X1)" using a h2 h3 by blast
  have c4: "board_inv (snd (naked_single (tiles_of X1)))" using b c3 by blast
  have c5: "board_inv (snd (hidden_single ascending (tiles_of X1)))" using b c3 by blast
  have c6: "board_inv (tiles_of X1_out)" using b c3 solve_X1 by blast
  show ?thesis
    using h1 h2 h3 c1 c2 c3 c4 c5 c6 propagate_X1 solve_X1 by (intro conjI)
qed

text \<open>
  C2. For every initial board (a fresh \<^verbatim>\<open>Board()\<close> after \<^verbatim>\<open>set_tiles\<close>) that has a
  valid completion agreeing with its known values, \<^verbatim>\<open>solve\<close> returns True: with
  enough fuel the model returns True, whatever the order in which the candidate sets are
  visited, as long as every candidate is visited.
\<close>

theorem solve_finds_completion:
  "set_tiles tile_values Board = Inr b \<and> valid_completion f \<and> agrees f b \<and>
   (\<forall>S. set (iter S) = S) \<longrightarrow>
     (\<exists>n b'. solve iter n b = Some (Inr (True, b')))"
proof
  assume a: "set_tiles tile_values Board = Inr b \<and> valid_completion f \<and> agrees f b \<and>
   (\<forall>S. set (iter S) = S)"
  then have st: "set_tiles tile_values Board = Inr b" and v: "valid_completion f"
    and ag: "agrees f b" and it: "iter_exact iter" by (simp_all add: iter_exact_def)
  have ok: "board_ok b" using stable_set_tiles[OF stable_board_ok board_ok_Board st] .
  have fr: "list_all (list_all fresh) b" using set_tiles_fresh[OF fresh_Board st] .
  have ad: "admits b f" using admits_fresh[OF board_ok_parts(1)[OF ok] fr v ag] .
  from solve_complete[OF v it ok ad order_refl]
  show "\<exists>n b'. solve iter n b = Some (Inr (True, b'))" by blast
qed

theorem solve_finds_completion_witness:
  "set_tiles puzzle Board = Inr (tiles_of puzzle) \<and> valid_completion solution \<and>
   agrees solution (tiles_of puzzle) \<and> (\<forall>S. set (ascending S) = S) \<and>
   (\<exists>n b'. solve ascending n (tiles_of puzzle) = Some (Inr (True, b')))"
proof -
  have h1: "set_tiles puzzle Board = Inr (tiles_of puzzle)"
    using fits_puzzle by (rule set_tiles_Board)
  have h2: "\<forall>S. set (ascending S) = S"
    by (simp add: iter_exact_ascending)
  have "\<exists>n b'. solve ascending n (tiles_of puzzle) = Some (Inr (True, b'))"
    using h1 h2 valid_solution agrees_puzzle
      solve_finds_completion [of puzzle "tiles_of puzzle" solution ascending]
    by blast
  then show ?thesis
    using h1 h2 valid_solution agrees_puzzle by (intro conjI)
qed

text \<open>
  C4, at a failing input. Idempotence asks that \<^verbatim>\<open>propagate\<close> ends in a fixpoint of
  \<^verbatim>\<open>naked_single\<close> and \<^verbatim>\<open>hidden_single\<close>. The loop runs on the result of
  \<^verbatim>\<open>naked_single\<close> alone and drops the result of \<^verbatim>\<open>hidden_single\<close>. In the state
  \<open>Z\<close>, \<^verbatim>\<open>naked_single\<close> has nothing to remove, \<^verbatim>\<open>hidden_single\<close> places the 1 of
  the first block, and the loop stops; in the state left behind \<^verbatim>\<open>naked_single\<close>
  removes candidates again, so a second \<^verbatim>\<open>propagate\<close> changes the grid.
\<close>

theorem propagate_stops_before_fixpoint:
  "set_tiles G3 Board = Inr (tiles_of G3) \<and> \<not> fst (naked_single Z) \<and>
   (\<exists>b1 b2. propagate ascending Z = Some b1 \<and> fst (naked_single b1) \<and>
      propagate ascending b1 = Some b2 \<and> b2 \<noteq> b1)"
proof -
  have "fits G3"
    by code_simp
  then have ld: "set_tiles G3 Board = Inr (tiles_of G3)"
    by (rule set_tiles_Board)
  from propagate_Z obtain b1 where b1: "propagate ascending Z = Some b1" "fst (naked_single b1)"
    by (auto split: option.splits)
  have ok1: "board_ok b1" using stable_propagate[OF stable_board_ok board_ok_Z b1(1)] .
  from propagate_terminates[OF iter_sound_ascending ok1] obtain b2 where
    b2: "propagate ascending b1 = Some b2" by blast
  have "cand_sum b2 < cand_sum b1"
    using progress_changes_grid[OF iter_sound_ascending ok1 b1(2) b2] .
  then have "b2 \<noteq> b1" by auto
  then show ?thesis using ld propagate_Z b1 b2 by blast
qed

end
